theory Spec2Isabelle
  imports Complex_Main "HOL-Library.Sublist"
begin

section \<open>Strings and numbers as the JavaScript source renders them\<close>

text \<open>
  Strings are lists of characters. A template literal \<^verbatim>\<open>`a${x}b`\<close> is the
  concatenation of its pieces; a number inside one is rendered in decimal.
\<close>

definition newline :: string where
  "newline = [CHR 0x0A]"

fun digits :: "nat \<Rightarrow> string" where
  "digits n =
     (if n < 10 then [char_of (48 + n)]
      else digits (n div 10) @ [char_of (48 + n mod 10)])"

declare digits.simps [simp del]

definition numberToString :: "int \<Rightarrow> string" where
  "numberToString i = (if i < 0 then CHR ''-'' # digits (nat (- i)) else digits (nat i))"

text \<open>\<^verbatim>\<open>Array.prototype.join\<close> on an array of strings.\<close>

fun join :: "string \<Rightarrow> string list \<Rightarrow> string" where
  "join sep [] = []"
| "join sep [x] = x"
| "join sep (x # y # ys) = x @ sep @ join sep (y # ys)"

text \<open>
  \<^verbatim>\<open>Array.prototype.indexOf\<close>: the first position of the element, or \<open>-1\<close>.
\<close>

fun indexOf :: "'a list \<Rightarrow> 'a \<Rightarrow> int" where
  "indexOf [] x = - 1"
| "indexOf (y # ys) x =
     (if y = x then 0 else (let r = indexOf ys x in if r < 0 then - 1 else r + 1))"

section \<open>Errors\<close>

text \<open>What the program throws, as far as the stages modelled here can throw it.\<close>

datatype error =
    TokenizerError      \<comment> \<open>\<^verbatim>\<open>encode\<close> throws: the text holds a special token\<close>
  | CacheReadError      \<comment> \<open>\<^verbatim>\<open>fs.readJSON\<close> throws: the record is not readable as JSON\<close>
  | CacheWriteError     \<comment> \<open>\<^verbatim>\<open>fs.writeJSON\<close> throws\<close>
  | CrawlError          \<comment> \<open>the crawler actor call throws\<close>
  | ModelError          \<comment> \<open>\<^verbatim>\<open>generateObject\<close> throws\<close>
  | ReferenceTypeError  \<comment> \<open>TypeError: \<^verbatim>\<open>truncatedContents[contentIndex].url\<close> with no element at the index\<close>
  | MissingReference    \<comment> \<open>TypeError: \<^verbatim>\<open>ref.title\<close> with \<^verbatim>\<open>ref\<close> undefined\<close>
  | ReportWriteError    \<comment> \<open>\<^verbatim>\<open>fs.ensureDir\<close> or \<^verbatim>\<open>fs.writeFile\<close> throws\<close>

section \<open>Crawled items\<close>

text \<open>
  A dataset item of the crawler, as far as the program reads it: \<^verbatim>\<open>item.url\<close>,
  \<^verbatim>\<open>item.metadata?.title\<close> (absent when there is no metadata or no title) and
  \<^verbatim>\<open>item.text\<close>.
\<close>

record item =
  item_url :: string
  item_title :: "string option"
  item_text :: string

section \<open>tokenizer.js\<close>

text \<open>
  \<^verbatim>\<open>encode\<close> comes from the package gpt-tokenizer; it is a parameter \<open>enc\<close> of
  the model: the tokens of a text, or \<open>None\<close> when \<^verbatim>\<open>encode\<close> throws, as it does
  on a text that holds a special token. \<^verbatim>\<open>estimateTokens\<close> returns 0 on the empty
  string without calling it.
\<close>

definition estimateTokens :: "(string \<Rightarrow> 'tok list option) \<Rightarrow> string \<Rightarrow> error + int" where
  "estimateTokens enc txt =
     (if txt = [] then Inr 0
      else case enc txt of None \<Rightarrow> Inl TokenizerError | Some toks \<Rightarrow> Inr (int (length toks)))"

text \<open>The delimiter \<^verbatim>\<open>`<content${k}>\n${content.text}\n</content${k}>`\<close>.\<close>

definition contentText :: "nat \<Rightarrow> item \<Rightarrow> string" where
  "contentText k c =
     ''<content'' @ numberToString (int k) @ ''>'' @ newline @ item_text c @ newline @
     ''</content'' @ numberToString (int k) @ ''>''"

text \<open>
  The \<^verbatim>\<open>for ... of\<close> loop of \<^verbatim>\<open>truncateContentsToFit\<close>: \<open>acc\<close> is
  \<^verbatim>\<open>truncatedContents\<close>, \<open>totalTokens\<close> is the running total; \<^verbatim>\<open>break\<close> returns
  what has been accepted, and an estimate that throws ends the loop with its error.
\<close>

fun truncateLoop ::
  "(string \<Rightarrow> 'tok list option) \<Rightarrow> int \<Rightarrow> item list \<Rightarrow> item list \<Rightarrow> int \<Rightarrow> error + item list" where
  "truncateLoop enc W [] acc totalTokens = Inr acc"
| "truncateLoop enc W (c # cs) acc totalTokens =
     (case estimateTokens enc (contentText (length acc + 1) c) of
        Inl e \<Rightarrow> Inl e
      | Inr contentTokens \<Rightarrow>
          if totalTokens + contentTokens \<le> W
          then truncateLoop enc W cs (acc @ [c]) (totalTokens + contentTokens)
          else Inr acc)"

definition truncateContentsToFit ::
  "(string \<Rightarrow> 'tok list option) \<Rightarrow> string \<Rightarrow> item list \<Rightarrow> int \<Rightarrow> error + item list" where
  "truncateContentsToFit enc prompt contents contextWindow =
     (case estimateTokens enc prompt of
        Inl e \<Rightarrow> Inl e
      | Inr baseTokens \<Rightarrow>
          (let availableTokens = contextWindow - baseTokens
           in if availableTokens \<le> 0 then Inr []
              else truncateLoop enc contextWindow contents [] baseTokens))"

text \<open>
  The tokenizer accepts a text when \<^verbatim>\<open>estimateTokens\<close> returns on it; \<open>tokens\<close> is
  the estimate it then returns.
\<close>

definition accepts :: "(string \<Rightarrow> 'tok list option) \<Rightarrow> string \<Rightarrow> bool" where
  "accepts enc txt = (txt = [] \<or> enc txt \<noteq> None)"

definition tokens :: "(string \<Rightarrow> 'tok list option) \<Rightarrow> string \<Rightarrow> int" where
  "tokens enc txt =
     (if txt = [] then 0 else case enc txt of None \<Rightarrow> 0 | Some toks \<Rightarrow> int (length toks))"

text \<open>
  The specification's measure of a selection: the template's estimate plus the estimate
  of every selected document wrapped in the delimiter of its position in the selection.
  \<open>wrappedTokens enc k sel\<close> numbers the documents of \<open>sel\<close> from \<open>k + 1\<close>.
\<close>

fun wrappedTokens :: "(string \<Rightarrow> 'tok list option) \<Rightarrow> nat \<Rightarrow> item list \<Rightarrow> int" where
  "wrappedTokens enc k [] = 0"
| "wrappedTokens enc k (d # ds) =
     tokens enc (contentText (k + 1) d) + wrappedTokens enc (k + 1) ds"

definition cumulativeTokens :: "(string \<Rightarrow> 'tok list option) \<Rightarrow> string \<Rightarrow> item list \<Rightarrow> int" where
  "cumulativeTokens enc t sel = tokens enc t + wrappedTokens enc 0 sel"

section \<open>research.js: the Research object and its surroundings\<close>

text \<open>
  Characters are read as code points below 256. On these \<^verbatim>\<open>toLowerCase\<close> maps
  \<open>A\<close>..\<open>Z\<close> and the accented capitals \<open>0xC0\<close>..\<open>0xDE\<close> (but not the
  multiplication sign \<open>0xD7\<close>) to the letter 32 positions later, and the white space of
  \<^verbatim>\<open>trim\<close> and of the regular expression class \<^verbatim>\<open>\s\<close> is tab, line feed, vertical
  tab, form feed, carriage return, space and the no-break space.
\<close>

definition toLowerCaseChar :: "char \<Rightarrow> char" where
  "toLowerCaseChar c =
     (let n = (of_char c :: nat)
      in if (65 \<le> n \<and> n \<le> 90) \<or> (192 \<le> n \<and> n \<le> 222 \<and> n \<noteq> 215)
         then char_of (n + 32) else c)"

definition toLowerCase :: "string \<Rightarrow> string" where
  "toLowerCase s = map toLowerCaseChar s"

definition isWhiteSpace :: "char \<Rightarrow> bool" where
  "isWhiteSpace c =
     (c = CHR 0x09 \<or> c = CHR 0x0A \<or> c = CHR 0x0B \<or> c = CHR 0x0C \<or> c = CHR 0x0D \<or>
      c = CHR 0x20 \<or> c = CHR 0xA0)"

definition trim :: "string \<Rightarrow> string" where
  "trim s = rev (dropWhile isWhiteSpace (rev (dropWhile isWhiteSpace s)))"

text \<open>A file of the cache directory: JSON that parses to an item, or bytes that do not parse.\<close>

datatype cacheFile = Json item | Unreadable

record reference =
  ref_title :: string
  ref_url :: string

text \<open>
  A chapter of the outline. The program only prints the number of a chapter and copies
  it; outlines number their chapters with whole numbers, and the numbers are integers here.
\<close>

record outlineChapter =
  ch_number :: int
  ch_title :: string

text \<open>
  The schema gives the reference numbers of a paragraph as \<^verbatim>\<open>z.number()\<close>: any
  number, whole or not. They are rationals here.
\<close>

record bodyParagraph =
  para_text :: string
  para_references :: "rat list"

record chapterObject =
  obj_summary :: string
  obj_paragraphs :: "bodyParagraph list"

text \<open>
  One call of \<^verbatim>\<open>generateObject\<close> for a chapter body: the prompt sent, the budgeted
  documents whose text the prompt carries, and the object the backend answered.
\<close>

record modelCall =
  call_prompt :: string
  call_contents :: "item list"
  call_object :: chapterObject

text \<open>
  The fields of \<^verbatim>\<open>Research\<close> that the crawl, chapter and document stages use:
  \<^verbatim>\<open>this.cache\<close> (an object, enumerated in insertion order), \<^verbatim>\<open>this.references\<close>
  (a Map) and \<^verbatim>\<open>this.usedReferences\<close> (an array). With them travel the two pieces of
  the outside world the stages act on: the files of the directory \<^verbatim>\<open>cache\<close> and the
  chapter-body calls made to the model backend so far.
\<close>

record research =
  cache :: "(string \<times> item) list"
  references :: "string \<Rightarrow> reference option"
  usedReferences :: "string list"
  disk :: "string \<Rightarrow> cacheFile option"
  calls :: "modelCall list"

text \<open>The state the constructor leaves, over a given cache directory.\<close>

definition newResearch :: "(string \<Rightarrow> cacheFile option) \<Rightarrow> research" where
  "newResearch d = \<lparr>cache = [], references = Map.empty, usedReferences = [], disk = d, calls = []\<rparr>"

text \<open>
  Of the configuration, the locale and the context window that \<^verbatim>\<open>models.js\<close> lists
  for the selected model; the constructor has found that model in the table.
\<close>

record config =
  cfg_locale :: string
  cfg_contextWindow :: int

text \<open>
  \<^verbatim>\<open>obj[k] = v\<close> on an object with string keys: an existing key keeps its place, a new
  one goes last; \<^verbatim>\<open>Object.values\<close> lists the values in that order.
\<close>

fun objSet :: "(string \<times> 'v) list \<Rightarrow> string \<Rightarrow> 'v \<Rightarrow> (string \<times> 'v) list" where
  "objSet [] k v = [(k, v)]"
| "objSet ((k', v') # kvs) k v =
     (if k' = k then (k, v) # kvs else (k', v') # objSet kvs k v)"

definition objValues :: "(string \<times> 'v) list \<Rightarrow> 'v list" where
  "objValues kvs = map snd kvs"

subsection \<open>crawlUrls\<close>

text \<open>
  The MD5 digest is a parameter \<open>md5\<close>. The record of a URL is the file
  \<^verbatim>\<open>cache/url_<md5 of url.toLowerCase().trim()>.json\<close>.
\<close>

definition cachePath :: "(string \<Rightarrow> string) \<Rightarrow> string \<Rightarrow> string" where
  "cachePath md5 url = ''cache/url_'' @ md5 (trim (toLowerCase url)) @ ''.json''"

text \<open>\<^verbatim>\<open>metadata?.title || url\<close>: the URL stands in for an absent or empty title.\<close>

definition titleOr :: "string option \<Rightarrow> string \<Rightarrow> string" where
  "titleOr t url = (case t of None \<Rightarrow> url | Some s \<Rightarrow> if s = [] then url else s)"

definition remember :: "string \<Rightarrow> item \<Rightarrow> research \<Rightarrow> research" where
  "remember url it st =
     st\<lparr>cache := objSet (cache st) url it,
        references := (references st)(url \<mapsto> \<lparr>ref_title = titleOr (item_title it) url, ref_url = url\<rparr>)\<rparr>"

text \<open>
  The body of the first loop: a URL whose record exists is read and remembered under the
  requested URL; one without a record is queued for the crawler. Reading is not guarded:
  a record that does not parse throws.
\<close>

definition lookupUrl ::
  "(string \<Rightarrow> string) \<Rightarrow> string \<Rightarrow> research \<times> string list \<Rightarrow> error + research \<times> string list" where
  "lookupUrl md5 url s =
     (case s of (st, uncachedUrls) \<Rightarrow>
        (case disk st (cachePath md5 url) of
           None \<Rightarrow> Inr (st, uncachedUrls @ [url])
         | Some Unreadable \<Rightarrow> Inl CacheReadError
         | Some (Json cached) \<Rightarrow> Inr (remember url cached st, uncachedUrls)))"

fun lookupLoop ::
  "(string \<Rightarrow> string) \<Rightarrow> string list \<Rightarrow> research \<times> string list \<Rightarrow> error + research \<times> string list" where
  "lookupLoop md5 [] s = Inr s"
| "lookupLoop md5 (url # urls) s =
     (case lookupUrl md5 url s of Inl e \<Rightarrow> Inl e | Inr s' \<Rightarrow> lookupLoop md5 urls s')"

text \<open>
  The body of the second loop: the item is written to the record of its own URL, then
  remembered under that URL. \<open>wfail\<close> tells the paths at which a write throws.
\<close>

definition storeItem ::
  "(string \<Rightarrow> string) \<Rightarrow> (string \<Rightarrow> bool) \<Rightarrow> item \<Rightarrow> research \<Rightarrow> error + research" where
  "storeItem md5 wfail it st =
     (let p = cachePath md5 (item_url it)
      in if wfail p then Inl CacheWriteError
         else Inr (remember (item_url it) it (st\<lparr>disk := (disk st)(p \<mapsto> Json it)\<rparr>)))"

fun storeLoop ::
  "(string \<Rightarrow> string) \<Rightarrow> (string \<Rightarrow> bool) \<Rightarrow> item list \<Rightarrow> research \<Rightarrow> error + research" where
  "storeLoop md5 wfail [] st = Inr st"
| "storeLoop md5 wfail (it # items) st =
     (case storeItem md5 wfail it st of Inl e \<Rightarrow> Inl e | Inr st' \<Rightarrow> storeLoop md5 wfail items st')"

text \<open>
  \<open>crawler\<close> is the crawler actor with its dataset: the items it returns for the start
  URLs, or \<open>None\<close> when the call throws. It is called only when some URL had no record.
\<close>

definition crawlUrls ::
  "(string \<Rightarrow> string) \<Rightarrow> (string list \<Rightarrow> item list option) \<Rightarrow> (string \<Rightarrow> bool) \<Rightarrow>
     string list \<Rightarrow> research \<Rightarrow> error + item list \<times> research" where
  "crawlUrls md5 crawler wfail urls st =
     (case lookupLoop md5 urls (st, []) of
        Inl e \<Rightarrow> Inl e
      | Inr (st1, uncachedUrls) \<Rightarrow>
          if length uncachedUrls > 0
          then (case crawler uncachedUrls of
                  None \<Rightarrow> Inl CrawlError
                | Some items \<Rightarrow>
                    (case storeLoop md5 wfail items st1 of
                       Inl e \<Rightarrow> Inl e
                     | Inr st2 \<Rightarrow> Inr (objValues (cache st2), st2)))
          else Inr (objValues (cache st1), st1))"

subsection \<open>generateChapterContent\<close>

text \<open>
  Lines 352 to 355: the URL is pushed unless the array includes it, and the citation index
  is its position plus one.
\<close>

definition citeOrGetIndex :: "string list \<Rightarrow> string \<Rightarrow> string list \<times> int" where
  "citeOrGetIndex used url =
     (let used' = (if url \<notin> set used then used @ [url] else used)
      in (used', indexOf used' url + 1))"

definition marker :: "int \<Rightarrow> string \<Rightarrow> string" where
  "marker refIndex url = ''[('' @ numberToString refIndex @ '')]('' @ url @ '')''"

text \<open>
  The callback of \<^verbatim>\<open>para.references.map\<close>. The test compares
  \<^verbatim>\<open>contentIndex = refNum - 1\<close> with 0 and with the length; it does not ask for a
  whole number. Inside these bounds, a whole \<^verbatim>\<open>contentIndex\<close> gives the marker of
  the document at that index, and any other number finds no element, so that reading
  \<^verbatim>\<open>.url\<close> throws. Outside them the callback returns \<^verbatim>\<open>null\<close> (here \<open>None\<close>).
  The schema of the answer is \<^verbatim>\<open>z.array(z.number())\<close>: a reference number is any
  finite number, taken here by its value as a rational number.
\<close>

definition isWhole :: "rat \<Rightarrow> bool" where
  "isWhole q = (rat_of_int \<lfloor>q\<rfloor> = q)"

definition resolveRef :: "item list \<Rightarrow> string list \<Rightarrow> rat \<Rightarrow> error + string option \<times> string list" where
  "resolveRef truncatedContents used refNum =
     (let contentIndex = refNum - 1
      in if contentIndex \<ge> 0 \<and> contentIndex < rat_of_nat (length truncatedContents)
         then (if isWhole contentIndex
               then (let url = item_url (truncatedContents ! nat \<lfloor>contentIndex\<rfloor>);
                         r = citeOrGetIndex used url
                     in Inr (Some (marker (snd r) url), fst r))
               else Inl ReferenceTypeError)
         else Inr (None, used))"

text \<open>\<^verbatim>\<open>Array.prototype.map\<close> with this callback: the first throw ends it.\<close>

fun mapRefs :: "item list \<Rightarrow> rat list \<Rightarrow> string list \<Rightarrow> error + string option list \<times> string list" where
  "mapRefs tc [] used = Inr ([], used)"
| "mapRefs tc (refNum # rest) used =
     (case resolveRef tc used refNum of
        Inl e \<Rightarrow> Inl e
      | Inr (m, used1) \<Rightarrow>
          (case mapRefs tc rest used1 of
             Inl e \<Rightarrow> Inl e
           | Inr (ms, used2) \<Rightarrow> Inr (m # ms, used2)))"

text \<open>\<^verbatim>\<open>.filter(Boolean)\<close> keeps the strings that are neither \<^verbatim>\<open>null\<close> nor empty.\<close>

definition filterBoolean :: "string option list \<Rightarrow> string list" where
  "filterBoolean ms = concat (map (\<lambda>m. case m of None \<Rightarrow> [] | Some s \<Rightarrow> if s = [] then [] else [s]) ms)"

text \<open>The callback of \<^verbatim>\<open>object.paragraphs.map\<close>, and the map itself.\<close>

definition processParagraph ::
  "item list \<Rightarrow> bodyParagraph \<Rightarrow> string list \<Rightarrow> error + string \<times> string list" where
  "processParagraph tc para used =
     (case mapRefs tc (para_references para) used of
        Inl e \<Rightarrow> Inl e
      | Inr (ms, used') \<Rightarrow>
          (let refs = filterBoolean ms
           in Inr (para_text para @ (if length refs > 0 then '' '' @ join [] refs else []), used')))"

fun processParagraphs ::
  "item list \<Rightarrow> bodyParagraph list \<Rightarrow> string list \<Rightarrow> error + string list \<times> string list" where
  "processParagraphs tc [] used = Inr ([], used)"
| "processParagraphs tc (para # rest) used =
     (case processParagraph tc para used of
        Inl e \<Rightarrow> Inl e
      | Inr (t, used1) \<Rightarrow>
          (case processParagraphs tc rest used1 of
             Inl e \<Rightarrow> Inl e
           | Inr (ts, used2) \<Rightarrow> Inr (t # ts, used2)))"

definition chaptersText :: "outlineChapter list \<Rightarrow> string" where
  "chaptersText chapters =
     join newline (map (\<lambda>c. numberToString (ch_number c) @ ''. '' @ ch_title c) chapters)"

definition promptHead :: "config \<Rightarrow> string \<Rightarrow> outlineChapter \<Rightarrow> outlineChapter list \<Rightarrow> string" where
  "promptHead cfg subject chapter chapters =
     ''For a comprehensive research paper on '' @ [CHR 0x22] @ subject @ [CHR 0x22] @
     '' that covers the following chapters, generate the complete text for chapter '' @
     numberToString (ch_number chapter) @
     ''. You will receive a list of chapters, extensive contents to work with, and previous chapter text (previous_chapter). Use the provided contents and previous_chapter as your basis, ensuring that previous_chapter is only repeated when absolutely necessary. The chapter should be written in the '' @
     cfg_locale cfg @ '' locale and cover the chapter in its entirety.'' @ newline @
     newline @
     ''Your response should include:'' @ newline @
     ''1. A summary of the chapter'' @ newline @
     ''2. An array of paragraphs, where each paragraph has:'' @ newline @
     ''   - The paragraph text'' @ newline @
     ''   - An array of reference numbers (1-based) to the content items used in that paragraph'' @ newline @
     newline @
     ''Don'' @ [CHR 0x27] @ ''t include the chapter title or number in your responses.'' @ newline @
     newline @
     ''<chapters>'' @ newline @
     chaptersText chapters @ newline @
     ''</chapters>'' @ newline @
     newline @
     ''<previous_chapter>'' @ newline"

definition basePrompt :: "config \<Rightarrow> string \<Rightarrow> outlineChapter \<Rightarrow> outlineChapter list \<Rightarrow> string \<Rightarrow> string" where
  "basePrompt cfg subject chapter chapters previousChapter =
     promptHead cfg subject chapter chapters @ previousChapter @ newline @ ''</previous_chapter>''"

definition contentsText :: "item list \<Rightarrow> string" where
  "contentsText cs =
     join (newline @ newline) (map (\<lambda>(i, c). contentText (i + 1) c) (enumerate 0 cs))"

record chapterResult =
  res_summary :: string
  res_text :: string

text \<open>
  \<open>enc\<close> is the tokenizer and \<open>llm\<close> the model backend: the object it answers to the
  \<open>n\<close>-th chapter-body call with a given prompt, or \<open>None\<close> when the call throws. The
  context window is the selected model's, read from the configuration. The steps run in
  the order of the source: the budget, the call, the paragraphs; the first throw is the
  result.
\<close>

definition generateChapterContent ::
  "(string \<Rightarrow> 'tok list option) \<Rightarrow> (nat \<Rightarrow> string \<Rightarrow> chapterObject option) \<Rightarrow> config \<Rightarrow> string \<Rightarrow>
     outlineChapter \<Rightarrow> outlineChapter list \<Rightarrow> item list \<Rightarrow> string \<Rightarrow> research \<Rightarrow> error + chapterResult \<times> research" where
  "generateChapterContent enc llm cfg subject chapter chapters contents previousChapter st =
     (let bp = basePrompt cfg subject chapter chapters previousChapter
      in case truncateContentsToFit enc bp contents (cfg_contextWindow cfg) of
           Inl e \<Rightarrow> Inl e
         | Inr truncatedContents \<Rightarrow>
             (let prompt = bp @ newline @ newline @ contentsText truncatedContents
              in case llm (length (calls st)) prompt of
                   None \<Rightarrow> Inl ModelError
                 | Some object \<Rightarrow>
                     (case processParagraphs truncatedContents (obj_paragraphs object)
                             (usedReferences st) of
                        Inl e \<Rightarrow> Inl e
                      | Inr (texts, used') \<Rightarrow>
                          Inr (\<lparr>res_summary = obj_summary object,
                                res_text = join (newline @ newline) texts\<rparr>,
                               st\<lparr>usedReferences := used',
                                  calls := calls st @
                                    [\<lparr>call_prompt = prompt, call_contents = truncatedContents,
                                      call_object = object\<rparr>]\<rparr>))))"

subsection \<open>index.js: the chapter loop of main\<close>

record chapterContent =
  cc_number :: int
  cc_title :: string
  cc_content :: string
  cc_summary :: string

fun chapterLoop ::
  "(string \<Rightarrow> 'tok list option) \<Rightarrow> (nat \<Rightarrow> string \<Rightarrow> chapterObject option) \<Rightarrow> config \<Rightarrow> string \<Rightarrow>
     outlineChapter list \<Rightarrow> item list \<Rightarrow> outlineChapter list \<Rightarrow> string \<times> chapterContent list \<times> research \<Rightarrow>
     error + string \<times> chapterContent list \<times> research" where
  "chapterLoop enc llm cfg subject chapters contents [] s = Inr s"
| "chapterLoop enc llm cfg subject chapters contents (chapter # rest) s =
     (case s of (previousText, chapterContents, st) \<Rightarrow>
        (case generateChapterContent enc llm cfg subject chapter chapters contents previousText st of
           Inl e \<Rightarrow> Inl e
         | Inr (content, st') \<Rightarrow>
             chapterLoop enc llm cfg subject chapters contents rest
               (previousText @ res_text content,
                chapterContents @
                  [\<lparr>cc_number = ch_number chapter, cc_title = ch_title chapter,
                    cc_content = res_text content, cc_summary = res_summary content\<rparr>],
                st')))"

definition generateChapters ::
  "(string \<Rightarrow> 'tok list option) \<Rightarrow> (nat \<Rightarrow> string \<Rightarrow> chapterObject option) \<Rightarrow> config \<Rightarrow> string \<Rightarrow>
     outlineChapter list \<Rightarrow> item list \<Rightarrow> research \<Rightarrow> error + string \<times> chapterContent list \<times> research" where
  "generateChapters enc llm cfg subject chapters contents st =
     chapterLoop enc llm cfg subject chapters contents chapters ([], [], st)"

subsection \<open>generateDocument\<close>

text \<open>
  \<^verbatim>\<open>.replace(/\s+/g, "_")\<close>: every maximal run of white space becomes one underscore.
\<close>

function replaceWhiteSpace :: "string \<Rightarrow> string" where
  "replaceWhiteSpace [] = []"
| "replaceWhiteSpace (c # cs) =
     (if isWhiteSpace c then CHR ''_'' # replaceWhiteSpace (dropWhile isWhiteSpace cs)
      else c # replaceWhiteSpace cs)"
  by pat_completeness auto
termination
  by (relation "measure length") (auto simp: length_dropWhile_le less_Suc_eq_le)

text \<open>
  \<^verbatim>\<open>.replace(/(^_|_$)/g, "")\<close>: an underscore at the very start is removed, and so
  is an underscore at the very end of what follows it. Each alternative matches one
  character.
\<close>

definition stripEnds :: "string \<Rightarrow> string" where
  "stripEnds s =
     (let s1 = (if s \<noteq> [] \<and> hd s = CHR ''_'' then tl s else s)
      in if s1 \<noteq> [] \<and> last s1 = CHR ''_'' then butlast s1 else s1)"

definition slug :: "string \<Rightarrow> string" where
  "slug subject = stripEnds (replaceWhiteSpace (toLowerCase subject))"

definition toc :: "chapterContent list \<Rightarrow> string" where
  "toc chapters =
     join newline
       (map (\<lambda>c. numberToString (cc_number c) @ ''. ['' @ cc_title c @ ''](#chapter-'' @
                  numberToString (cc_number c) @ '')'') chapters)"

text \<open>
  \<^verbatim>\<open>this.usedReferences.map((url, index) => ...)\<close>, from position \<open>index\<close> on.
  \<^verbatim>\<open>ref.title\<close> throws a TypeError when the Map has no entry for the URL.
\<close>

fun referenceLines :: "(string \<Rightarrow> reference option) \<Rightarrow> nat \<Rightarrow> string list \<Rightarrow> error + string list" where
  "referenceLines refs index [] = Inr []"
| "referenceLines refs index (url # urls) =
     (case refs url of
        None \<Rightarrow> Inl MissingReference
      | Some ref \<Rightarrow>
          (case referenceLines refs (index + 1) urls of
             Inl e \<Rightarrow> Inl e
           | Inr ls \<Rightarrow> Inr ((''- '' @ marker (int index + 1) url @ '' '' @ ref_title ref) # ls)))"

definition orderedReferences :: "research \<Rightarrow> error + string" where
  "orderedReferences st =
     (case referenceLines (references st) 0 (usedReferences st) of
        Inl e \<Rightarrow> Inl e
      | Inr ls \<Rightarrow> Inr (join newline ls))"

definition chapterSection :: "chapterContent \<Rightarrow> string" where
  "chapterSection c =
     newline @ ''<h2 id='' @ [CHR 0x27] @ ''chapter-'' @ numberToString (cc_number c) @ [CHR 0x27] @
     ''>'' @ cc_title c @ ''</h2>'' @ newline @ newline @ ''*'' @ cc_summary c @ ''*'' @ newline @
     newline @ cc_content c"

definition dateLine :: "string \<Rightarrow> string" where
  "dateLine today =
     newline @ ''*Generated on '' @ today @
     '' by [apify-deep-research](https://github.com/mluggy/apify-deep-research) (not for commercial use)*'' @
     newline"

text \<open>The pieces of \<^verbatim>\<open>content\<close> that come before the bibliography.\<close>

definition contentParts :: "string \<Rightarrow> string \<Rightarrow> string \<Rightarrow> chapterContent list \<Rightarrow> string \<Rightarrow> string list" where
  "contentParts today subject abstract chapters conclusions =
     [''# '' @ subject, dateLine today, toc chapters, newline, ''*'' @ abstract @ ''*''] @
     map chapterSection chapters @
     [newline @ ''---'' @ newline, ''*'' @ conclusions @ ''*'', newline @ ''---'' @ newline]"

record document =
  doc_content :: string
  doc_markdown :: string
  doc_html :: string

text \<open>
  \<open>today\<close> is \<^verbatim>\<open>new Date().toISOString().split("T")[0]\<close>, the calendar date of the
  clock when the document is assembled. \<open>pathJoin\<close> is \<^verbatim>\<open>path.join\<close> of the platform,
  and \<open>wfail\<close> tells the paths at which \<^verbatim>\<open>fs.ensureDir\<close> or \<^verbatim>\<open>fs.writeFile\<close> throws.
  The steps run in the order of the source: the directory, the bibliography, the
  canonical text and its file, the HTML file. The result holds the canonical text and the
  two paths; the HTML text is the work of the package markdown-it and is left out.
\<close>

definition generateDocument ::
  "(string \<Rightarrow> string \<Rightarrow> string) \<Rightarrow> (string \<Rightarrow> bool) \<Rightarrow> string \<Rightarrow> string \<Rightarrow> string \<Rightarrow>
     chapterContent list \<Rightarrow> string \<Rightarrow> research \<Rightarrow> error + document" where
  "generateDocument pathJoin wfail today subject abstract chapters conclusions st =
     (if wfail ''reports'' then Inl ReportWriteError
      else case orderedReferences st of
        Inl e \<Rightarrow> Inl e
      | Inr refsText \<Rightarrow>
          (let content =
                 join newline (contentParts today subject abstract chapters conclusions @ [refsText]);
               mdPath = pathJoin ''reports'' (slug subject @ ''.md'');
               htmlPath = pathJoin ''reports'' (slug subject @ ''.html'')
           in if wfail mdPath then Inl ReportWriteError
              else if wfail htmlPath then Inl ReportWriteError
              else Inr \<lparr>doc_content = content, doc_markdown = mdPath, doc_html = htmlPath\<rparr>))"

section \<open>Example data\<close>

text \<open>
  A tokenizer that counts one token per character and accepts every text; one that, like
  \<^verbatim>\<open>encode\<close> with its default options, throws on a text that holds the special token
  \<^verbatim>\<open><|endoftext|>\<close>; and documents named by URL and text.
\<close>

definition charTokens :: "string \<Rightarrow> char list option" where
  "charTokens s = Some s"

definition guardedTokens :: "string \<Rightarrow> char list option" where
  "guardedTokens s = (if sublist ''<|endoftext|>'' s then None else Some s)"

definition doc :: "string \<Rightarrow> string \<Rightarrow> item" where
  "doc u t = \<lparr>item_url = u, item_title = None, item_text = t\<rparr>"

definition exampleConfig :: config where
  "exampleConfig = \<lparr>cfg_locale = ''en-US'', cfg_contextWindow = 2000\<rparr>"

text \<open>A backend that always answers one paragraph citing the local numbers 2, 1 and 5.\<close>

definition exampleModel :: "nat \<Rightarrow> string \<Rightarrow> chapterObject option" where
  "exampleModel n p =
     Some \<lparr>obj_summary = ''s'', obj_paragraphs = [\<lparr>para_text = ''p'', para_references = [2, 1, 5]\<rparr>]\<rparr>"

definition exampleLedger :: research where
  "exampleLedger = (newResearch Map.empty)\<lparr>usedReferences := [''u1'']\<rparr>"

definition exampleCall :: "error + chapterResult \<times> research" where
  "exampleCall =
     generateChapterContent charTokens exampleModel exampleConfig ''solar''
       \<lparr>ch_number = 1, ch_title = ''Intro''\<rparr> [\<lparr>ch_number = 1, ch_title = ''Intro''\<rparr>]
       [doc ''u1'' ''x'', doc ''u2'' ''y''] [] exampleLedger"

definition exampleChapters :: "error + string \<times> chapterContent list \<times> research" where
  "exampleChapters =
     generateChapters charTokens exampleModel exampleConfig ''solar''
       [\<lparr>ch_number = 1, ch_title = ''Intro''\<rparr>, \<lparr>ch_number = 2, ch_title = ''More''\<rparr>]
       [doc ''u1'' ''x'', doc ''u2'' ''y''] exampleLedger"

text \<open>
  A local reference number is in range for a budgeted list when it is a position of the
  list, counted from 1.
\<close>

definition inRange :: "item list \<Rightarrow> int \<Rightarrow> bool" where
  "inRange tc n = (0 < n \<and> n \<le> int (length tc))"

text \<open>
  The numbers that pass the test of the callback: those from 1 up to, but not
  including, the length plus one.
\<close>

definition passesTest :: "item list \<Rightarrow> rat \<Rightarrow> bool" where
  "passesTest tc refNum = (1 \<le> refNum \<and> refNum < rat_of_nat (length tc) + 1)"

text \<open>
  The budgeted documents and the prompt of one chapter-body call that gets as far as the
  backend.
\<close>

definition budgeted ::
  "(string \<Rightarrow> 'tok list option) \<Rightarrow> config \<Rightarrow> string \<Rightarrow> outlineChapter \<Rightarrow> outlineChapter list \<Rightarrow>
     item list \<Rightarrow> string \<Rightarrow> item list" where
  "budgeted enc cfg subject c chapters contents previousChapter =
     (case truncateContentsToFit enc (basePrompt cfg subject c chapters previousChapter) contents
             (cfg_contextWindow cfg) of
        Inl e \<Rightarrow> []
      | Inr tc \<Rightarrow> tc)"

definition chapterPrompt ::
  "(string \<Rightarrow> 'tok list option) \<Rightarrow> config \<Rightarrow> string \<Rightarrow> outlineChapter \<Rightarrow> outlineChapter list \<Rightarrow>
     item list \<Rightarrow> string \<Rightarrow> string" where
  "chapterPrompt enc cfg subject c chapters contents previousChapter =
     basePrompt cfg subject c chapters previousChapter @ newline @ newline @
     contentsText (budgeted enc cfg subject c chapters contents previousChapter)"

text \<open>
  The URLs a list of reference numbers cites against a budgeted list, in order; the
  citations of one chapter-body call and of a sequence of calls; and the ledger after
  citing a sequence of URLs one after the other.
\<close>

definition citedUrls :: "item list \<Rightarrow> rat list \<Rightarrow> string list" where
  "citedUrls tc rs = map (\<lambda>r. item_url (tc ! nat \<lfloor>r - 1\<rfloor>)) (filter (passesTest tc) rs)"

definition callCitations :: "modelCall \<Rightarrow> string list" where
  "callCitations call =
     concat (map (\<lambda>p. citedUrls (call_contents call) (para_references p))
               (obj_paragraphs (call_object call)))"

definition runCitations :: "modelCall list \<Rightarrow> string list" where
  "runCitations cs = concat (map callCitations cs)"

definition citeAll :: "string list \<Rightarrow> string list \<Rightarrow> string list" where
  "citeAll used urls = foldl (\<lambda>u x. fst (citeOrGetIndex u x)) used urls"

text \<open>The elements of a list in the order of their first occurrence, each once.\<close>

definition firstUses :: "'a list \<Rightarrow> 'a list" where
  "firstUses xs = rev (remdups (rev xs))"

text \<open>
  The end-to-end scenario: two documents, two outline chapters, a backend whose first
  answer cites local number 1 and whose later answers cite local numbers 1 and 2, and the
  state after both documents have been remembered by the crawl stage.
\<close>

definition scenarioDoc1 :: item where
  "scenarioDoc1 = \<lparr>item_url = ''http://a.example/1'', item_title = Some ''First'', item_text = ''alpha''\<rparr>"

definition scenarioDoc2 :: item where
  "scenarioDoc2 = \<lparr>item_url = ''http://b.example/2'', item_title = Some ''Second'', item_text = ''beta''\<rparr>"

definition scenarioOutline :: "outlineChapter list" where
  "scenarioOutline = [\<lparr>ch_number = 1, ch_title = ''Intro''\<rparr>, \<lparr>ch_number = 2, ch_title = ''More''\<rparr>]"

definition scenarioModel :: "nat \<Rightarrow> string \<Rightarrow> chapterObject option" where
  "scenarioModel n p =
     (if n = 0
      then Some \<lparr>obj_summary = ''s1'', obj_paragraphs = [\<lparr>para_text = ''One.'', para_references = [1]\<rparr>]\<rparr>
      else Some \<lparr>obj_summary = ''s2'', obj_paragraphs = [\<lparr>para_text = ''Two.'', para_references = [1, 2]\<rparr>]\<rparr>)"

definition scenarioStart :: research where
  "scenarioStart =
     remember ''http://b.example/2'' scenarioDoc2
       (remember ''http://a.example/1'' scenarioDoc1 (newResearch Map.empty))"

definition scenarioRun :: "error + string \<times> chapterContent list \<times> research" where
  "scenarioRun =
     generateChapters charTokens scenarioModel exampleConfig ''solar panel recycling''
       scenarioOutline [scenarioDoc1, scenarioDoc2] scenarioStart"

text \<open>
  An outline whose numbers are not sorted, and a backend whose answer to the \<open>n\<close>-th
  call is one paragraph naming \<open>n\<close>.
\<close>

definition unsortedOutline :: "outlineChapter list" where
  "unsortedOutline =
     [\<lparr>ch_number = 2, ch_title = ''Second''\<rparr>, \<lparr>ch_number = 1, ch_title = ''First''\<rparr>,
      \<lparr>ch_number = 3, ch_title = ''Third''\<rparr>]"

definition countingModel :: "nat \<Rightarrow> string \<Rightarrow> chapterObject option" where
  "countingModel n p =
     Some \<lparr>obj_summary = ''summary'',
           obj_paragraphs = [\<lparr>para_text = ''Body written by call '' @ digits n, para_references = []\<rparr>]\<rparr>"

definition unsortedRun :: "error + string \<times> chapterContent list \<times> research" where
  "unsortedRun =
     generateChapters charTokens countingModel exampleConfig ''solar'' unsortedOutline []
       (newResearch Map.empty)"

text \<open>A stand-in for the digest in examples: the normalised URL itself.\<close>

definition plainDigest :: "string \<Rightarrow> string" where
  "plainDigest s = s"

definition neverFails :: "string \<Rightarrow> bool" where
  "neverFails p = False"

text \<open>
  A cache directory whose record for \<^verbatim>\<open>http://a.example/1\<close> does not parse, a crawler
  that returns one item per start URL, and a directory that refuses every write.
\<close>

definition corruptDisk :: "string \<Rightarrow> cacheFile option" where
  "corruptDisk = [cachePath plainDigest ''http://a.example/1'' \<mapsto> Unreadable]"

definition echoCrawler :: "string list \<Rightarrow> item list option" where
  "echoCrawler urls = Some (map (\<lambda>u. doc u ''crawled'') urls)"

definition alwaysFails :: "string \<Rightarrow> bool" where
  "alwaysFails p = True"

text \<open>
  A backend that answers one paragraph citing the number 2.5, and a call with two
  documents.
\<close>

definition fractionModel :: "nat \<Rightarrow> string \<Rightarrow> chapterObject option" where
  "fractionModel n p =
     Some \<lparr>obj_summary = ''s'', obj_paragraphs = [\<lparr>para_text = ''p'', para_references = [5 / 2]\<rparr>]\<rparr>"

definition fractionCall :: "error + chapterResult \<times> research" where
  "fractionCall =
     generateChapterContent charTokens fractionModel exampleConfig ''solar''
       \<lparr>ch_number = 1, ch_title = ''Intro''\<rparr> [\<lparr>ch_number = 1, ch_title = ''Intro''\<rparr>]
       [doc ''u1'' ''x'', doc ''u2'' ''y''] [] (newResearch Map.empty)"

text \<open>
  \<^verbatim>\<open>path.join\<close> on two relative parts without empty, \<^verbatim>\<open>.\<close> or \<^verbatim>\<open>..\<close> segments; and a
  directory \<^verbatim>\<open>reports\<close> that has no subdirectory, so that a write to a path with a
  further slash fails.
\<close>

definition slashJoin :: "string \<Rightarrow> string \<Rightarrow> string" where
  "slashJoin a b = a @ ''/'' @ b"

definition flatReports :: "string \<Rightarrow> bool" where
  "flatReports p = (CHR ''/'' \<in> set (drop (length ''reports/'') p))"

text \<open>A cache directory that holds the record of \<^verbatim>\<open>http://a.example/1\<close> from an earlier run.\<close>

definition seededDisk :: "string \<Rightarrow> cacheFile option" where
  "seededDisk = [cachePath plainDigest ''http://a.example/1'' \<mapsto> Json scenarioDoc1]"

text \<open>
  A run that asks for that URL in capitals: the crawl stage, one chapter whose answer
  cites local number 1, and the document.
\<close>

definition capitalsCrawl :: "error + item list \<times> research" where
  "capitalsCrawl =
     crawlUrls plainDigest echoCrawler neverFails [''HTTP://A.EXAMPLE/1''] (newResearch seededDisk)"

definition capitalsRun :: "error + string \<times> chapterContent list \<times> research" where
  "capitalsRun =
     (case capitalsCrawl of
        Inl e \<Rightarrow> Inl e
      | Inr (contents, st) \<Rightarrow>
          generateChapters charTokens scenarioModel exampleConfig ''solar panel recycling''
            [\<lparr>ch_number = 1, ch_title = ''Intro''\<rparr>] contents st)"

definition capitalsDocument :: "error + document" where
  "capitalsDocument =
     (case capitalsRun of
        Inl e \<Rightarrow> Inl e
      | Inr (previousText, chapters, st) \<Rightarrow>
          generateDocument slashJoin neverFails ''2026-01-01'' ''solar panel recycling'' ''abstract''
            chapters ''conclusions'' st)"

text \<open>The crawl stage of the end-to-end scenario, from an empty cache directory.\<close>

definition scenarioCrawler :: "string list \<Rightarrow> item list option" where
  "scenarioCrawler urls = Some [scenarioDoc1, scenarioDoc2]"

definition scenarioCrawl :: "error + item list \<times> research" where
  "scenarioCrawl =
     crawlUrls plainDigest scenarioCrawler neverFails [''http://a.example/1'', ''http://b.example/2'']
       (newResearch Map.empty)"

text \<open>The document of an empty run, assembled on a given date.\<close>

definition assembledOn :: "string \<Rightarrow> error + document" where
  "assembledOn today =
     generateDocument slashJoin neverFails today ''solar'' ''abstract'' [] ''conclusions''
       (newResearch Map.empty)"

section \<open>The context budgeter\<close>

lemma estimateTokens_accepts: "accepts enc txt \<Longrightarrow> estimateTokens enc txt = Inr (tokens enc txt)"
  by (auto simp: accepts_def estimateTokens_def tokens_def)

lemma estimateTokens_rejects: "\<not> accepts enc txt \<Longrightarrow> estimateTokens enc txt = Inl TokenizerError"
  by (auto simp: accepts_def estimateTokens_def)

lemma tokens_nonneg: "0 \<le> tokens enc txt"
  by (simp add: tokens_def split: option.splits)

lemma wrappedTokens_nonneg: "0 \<le> wrappedTokens enc k ds"
  by (induction ds arbitrary: k) (simp_all add: tokens_nonneg)

lemma wrappedTokens_append:
  "wrappedTokens enc k (xs @ ys) = wrappedTokens enc k xs + wrappedTokens enc (k + length xs) ys"
  by (induction xs arbitrary: k) simp_all

lemma wrappedTokens_take_mono:
  "i \<le> j \<Longrightarrow> wrappedTokens enc k (take i ds) \<le> wrappedTokens enc k (take j ds)"
proof -
  assume "i \<le> j"
  then have "take j ds = take i ds @ take (j - i) (drop i ds)"
    by (metis le_add_diff_inverse take_add)
  then show ?thesis
    using wrappedTokens_nonneg [of enc "k + length (take i ds)" "take (j - i) (drop i ds)"]
    by (simp add: wrappedTokens_append)
qed

text \<open>
  The loop from any point of the walk: it accepts \<open>k\<close> further documents, each accepted
  by the tokenizer and together within the window, and then either has no document left,
  or meets one that would overflow, or meets one on which the tokenizer throws.
\<close>

lemma truncateLoop_greedy:
  "totalTokens \<le> W \<Longrightarrow>
   \<exists>k\<le>length cs.
     (\<forall>j<k. accepts enc (contentText (length acc + j + 1) (cs ! j))) \<and>
     totalTokens + wrappedTokens enc (length acc) (take k cs) \<le> W \<and>
     (k < length cs \<and> \<not> accepts enc (contentText (length acc + k + 1) (cs ! k)) \<longrightarrow>
        truncateLoop enc W cs acc totalTokens = Inl TokenizerError) \<and>
     (\<not> (k < length cs \<and> \<not> accepts enc (contentText (length acc + k + 1) (cs ! k))) \<longrightarrow>
        truncateLoop enc W cs acc totalTokens = Inr (acc @ take k cs) \<and>
        (k < length cs \<longrightarrow>
           W < totalTokens + wrappedTokens enc (length acc) (take (Suc k) cs)))"
proof (induction cs arbitrary: acc totalTokens)
  case Nil
  then show ?case by simp
next
  case (Cons c cs)
  let ?txt = "contentText (length acc + 1) c"
  show ?case
  proof (cases "accepts enc ?txt")
    case False
    then show ?thesis
      using Cons.prems by (intro exI [of _ 0]) (simp add: estimateTokens_rejects)
  next
    case True
    let ?n = "tokens enc ?txt"
    show ?thesis
    proof (cases "totalTokens + ?n \<le> W")
      case fits: True
      from Cons.IH [OF fits, of "acc @ [c]"] obtain k where k:
        "k \<le> length cs"
        "\<forall>j<k. accepts enc (contentText (length (acc @ [c]) + j + 1) (cs ! j))"
        "totalTokens + ?n + wrappedTokens enc (length (acc @ [c])) (take k cs) \<le> W"
        "k < length cs \<and> \<not> accepts enc (contentText (length (acc @ [c]) + k + 1) (cs ! k)) \<longrightarrow>
           truncateLoop enc W cs (acc @ [c]) (totalTokens + ?n) = Inl TokenizerError"
        "\<not> (k < length cs \<and> \<not> accepts enc (contentText (length (acc @ [c]) + k + 1) (cs ! k))) \<longrightarrow>
           truncateLoop enc W cs (acc @ [c]) (totalTokens + ?n) = Inr ((acc @ [c]) @ take k cs) \<and>
           (k < length cs \<longrightarrow>
              W < totalTokens + ?n + wrappedTokens enc (length (acc @ [c])) (take (Suc k) cs))"
        by blast
      have acc: "\<forall>j<Suc k. accepts enc (contentText (length acc + j + 1) ((c # cs) ! j))"
      proof (intro allI impI)
        fix j
        assume "j < Suc k"
        then show "accepts enc (contentText (length acc + j + 1) ((c # cs) ! j))"
          using True k(2) by (cases j) simp_all
      qed
      have step: "truncateLoop enc W (c # cs) acc totalTokens =
          truncateLoop enc W cs (acc @ [c]) (totalTokens + ?n)"
        using True fits by (simp add: estimateTokens_accepts)
      show ?thesis
        using k(1) k(3) k(4) k(5) acc step
        by (intro exI [of _ "Suc k"]) (auto simp: add.assoc)
    next
      case over: False
      then show ?thesis
        using Cons.prems True by (intro exI [of _ 0]) (simp add: estimateTokens_accepts)
    qed
  qed
qed

text \<open>
  C1, as amended. When the tokenizer throws on the template, \<open>truncateContentsToFit\<close>
  throws. When it accepts the template and the template's estimate meets or exceeds the
  window, the result is empty. Otherwise the walk accepts a prefix \<open>take k ds\<close> of the
  documents: the tokenizer accepts each of them in the delimiter of its position, and
  every shorter prefix and this one stay within the window. The walk ends there because
  no document is left, or because the next one would overflow, and then the prefix is the
  result; or because the tokenizer throws on the next one, and then
  \<open>truncateContentsToFit\<close> throws. A list that is returned never measures more than the
  window, unless the template alone does. For three documents that the tokenizer accepts,
  of which the first two fit and all three do not, the result is the first two; the
  template must leave room, which follows from the two documents fitting as soon as they
  count a token at all.
\<close>

theorem truncateContentsToFit_greedy:
  "(\<not> accepts enc t \<longrightarrow> truncateContentsToFit enc t ds W = Inl TokenizerError) \<and>
   (accepts enc t \<and> W \<le> tokens enc t \<longrightarrow> truncateContentsToFit enc t ds W = Inr []) \<and>
   (accepts enc t \<and> tokens enc t < W \<longrightarrow>
      (\<exists>k\<le>length ds.
          (\<forall>j<k. accepts enc (contentText (j + 1) (ds ! j))) \<and>
          (\<forall>j\<le>k. cumulativeTokens enc t (take j ds) \<le> W) \<and>
          (if k < length ds \<and> \<not> accepts enc (contentText (k + 1) (ds ! k))
           then truncateContentsToFit enc t ds W = Inl TokenizerError
           else truncateContentsToFit enc t ds W = Inr (take k ds) \<and>
                (k < length ds \<longrightarrow> W < cumulativeTokens enc t (take (Suc k) ds))))) \<and>
   (truncateContentsToFit enc t ds W = Inr sel \<and> tokens enc t \<le> W \<longrightarrow>
      cumulativeTokens enc t sel \<le> W) \<and>
   (accepts enc t \<and> accepts enc (contentText 1 d1) \<and> accepts enc (contentText 2 d2) \<and>
    accepts enc (contentText 3 d3) \<and>
    (tokens enc t < W \<or> 0 < wrappedTokens enc 0 [d1, d2]) \<and>
    cumulativeTokens enc t [d1, d2] \<le> W \<and> W < cumulativeTokens enc t [d1, d2, d3] \<longrightarrow>
      truncateContentsToFit enc t [d1, d2, d3] W = Inr [d1, d2])"
proof -
  have rejected: "truncateContentsToFit enc t ds W = Inl TokenizerError" if "\<not> accepts enc t"
    using that by (simp add: truncateContentsToFit_def estimateTokens_rejects)
  have full: "truncateContentsToFit enc t ds W = Inr []" if "accepts enc t \<and> W \<le> tokens enc t"
    using that by (simp add: truncateContentsToFit_def estimateTokens_accepts)
  have walk: "\<exists>k\<le>length ds.
          (\<forall>j<k. accepts enc (contentText (j + 1) (ds ! j))) \<and>
          (\<forall>j\<le>k. cumulativeTokens enc t (take j ds) \<le> W) \<and>
          (if k < length ds \<and> \<not> accepts enc (contentText (k + 1) (ds ! k))
           then truncateContentsToFit enc t ds W = Inl TokenizerError
           else truncateContentsToFit enc t ds W = Inr (take k ds) \<and>
                (k < length ds \<longrightarrow> W < cumulativeTokens enc t (take (Suc k) ds)))"
    if a: "accepts enc t \<and> tokens enc t < W" for ds
  proof -
    from a have le: "tokens enc t \<le> W" by simp
    have unfold: "truncateContentsToFit enc t ds W = truncateLoop enc W ds [] (tokens enc t)"
      using a by (simp add: truncateContentsToFit_def estimateTokens_accepts)
    have "\<exists>k\<le>length ds.
        (\<forall>j<k. accepts enc (contentText (j + 1) (ds ! j))) \<and>
        tokens enc t + wrappedTokens enc 0 (take k ds) \<le> W \<and>
        (k < length ds \<and> \<not> accepts enc (contentText (k + 1) (ds ! k)) \<longrightarrow>
           truncateLoop enc W ds [] (tokens enc t) = Inl TokenizerError) \<and>
        (\<not> (k < length ds \<and> \<not> accepts enc (contentText (k + 1) (ds ! k))) \<longrightarrow>
           truncateLoop enc W ds [] (tokens enc t) = Inr (take k ds) \<and>
           (k < length ds \<longrightarrow> W < tokens enc t + wrappedTokens enc 0 (take (Suc k) ds)))"
      using truncateLoop_greedy [OF le, of ds enc "[]"] by simp
    then obtain k where k:
      "k \<le> length ds"
      "\<forall>j<k. accepts enc (contentText (j + 1) (ds ! j))"
      "tokens enc t + wrappedTokens enc 0 (take k ds) \<le> W"
      "k < length ds \<and> \<not> accepts enc (contentText (k + 1) (ds ! k)) \<longrightarrow>
         truncateLoop enc W ds [] (tokens enc t) = Inl TokenizerError"
      "\<not> (k < length ds \<and> \<not> accepts enc (contentText (k + 1) (ds ! k))) \<longrightarrow>
         truncateLoop enc W ds [] (tokens enc t) = Inr (take k ds) \<and>
         (k < length ds \<longrightarrow> W < tokens enc t + wrappedTokens enc 0 (take (Suc k) ds))"
      by blast
    have within: "\<forall>j\<le>k. cumulativeTokens enc t (take j ds) \<le> W"
      using k(3) wrappedTokens_take_mono [of _ k enc 0 ds]
      by (fastforce simp: cumulativeTokens_def)
    show ?thesis
      using k(1) k(2) k(4) k(5) within unfold
      by (intro exI [of _ k]) (simp add: cumulativeTokens_def)
  qed
  have bound: "cumulativeTokens enc t sel \<le> W"
    if r: "truncateContentsToFit enc t ds W = Inr sel \<and> tokens enc t \<le> W"
  proof -
    have acc: "accepts enc t"
      using r rejected by (cases "accepts enc t") auto
    show ?thesis
    proof (cases "tokens enc t < W")
      case True
      from walk [of ds] acc True obtain k where
        "\<forall>j\<le>k. cumulativeTokens enc t (take j ds) \<le> W"
        "if k < length ds \<and> \<not> accepts enc (contentText (k + 1) (ds ! k))
           then truncateContentsToFit enc t ds W = Inl TokenizerError
           else truncateContentsToFit enc t ds W = Inr (take k ds) \<and>
                (k < length ds \<longrightarrow> W < cumulativeTokens enc t (take (Suc k) ds))"
        by blast
      then show ?thesis
        using r by (auto split: if_splits)
    next
      case False
      then have "sel = []"
        using r full acc by auto
      then show ?thesis
        using r by (simp add: cumulativeTokens_def)
    qed
  qed
  have three: "truncateContentsToFit enc t [d1, d2, d3] W = Inr [d1, d2]"
    if a: "accepts enc t \<and> accepts enc (contentText 1 d1) \<and> accepts enc (contentText 2 d2) \<and>
      accepts enc (contentText 3 d3) \<and>
      (tokens enc t < W \<or> 0 < wrappedTokens enc 0 [d1, d2]) \<and>
      cumulativeTokens enc t [d1, d2] \<le> W \<and> W < cumulativeTokens enc t [d1, d2, d3]"
  proof -
    from a have room: "tokens enc t < W"
      by (auto simp: cumulativeTokens_def)
    have "0 \<le> tokens enc (contentText 2 d2)"
      by (rule tokens_nonneg)
    then show ?thesis
      using a room
      by (simp add: truncateContentsToFit_def cumulativeTokens_def estimateTokens_accepts
          numeral_2_eq_2 numeral_3_eq_3)
  qed
  show ?thesis
    using rejected full walk [of ds] bound three by blast
qed

theorem truncateContentsToFit_greedy_witness:
  "accepts charTokens ''ab'' \<and> tokens charTokens ''ab'' < 60 \<and>
   cumulativeTokens charTokens ''ab'' [doc ''u1'' ''x'', doc ''u2'' ''y''] \<le> 60 \<and>
   60 < cumulativeTokens charTokens ''ab'' [doc ''u1'' ''x'', doc ''u2'' ''y'', doc ''u3'' ''z''] \<and>
   truncateContentsToFit charTokens ''ab'' [doc ''u1'' ''x'', doc ''u2'' ''y'', doc ''u3'' ''z''] 60 =
     Inr [doc ''u1'' ''x'', doc ''u2'' ''y''] \<and>
   cumulativeTokens charTokens ''ab'' [doc ''u1'' ''x'', doc ''u2'' ''y''] \<le> 60 \<and>
   (1::int) \<le> tokens charTokens ''ab'' \<and>
   truncateContentsToFit charTokens ''ab'' [doc ''u1'' ''x''] 1 = Inr [] \<and>
   \<not> accepts guardedTokens ''<|endoftext|>'' \<and>
   truncateContentsToFit guardedTokens ''<|endoftext|>'' [doc ''u1'' ''x''] 60 = Inl TokenizerError"
proof -
  let ?ds = "[doc ''u1'' ''x'', doc ''u2'' ''y'', doc ''u3'' ''z'']"
  note t = truncateContentsToFit_greedy [where W = 60 and enc = charTokens and t = "''ab''"
      and ds = ?ds and ?d1.0 = "doc ''u1'' ''x''" and ?d2.0 = "doc ''u2'' ''y''"
      and ?d3.0 = "doc ''u3'' ''z''" and sel = "[doc ''u1'' ''x'', doc ''u2'' ''y'']"]
  note t1 = truncateContentsToFit_greedy [where W = 1 and enc = charTokens and t = "''ab''"
      and ds = "[doc ''u1'' ''x'']" and ?d1.0 = "doc ''u1'' ''x''" and ?d2.0 = "doc ''u2'' ''y''"
      and ?d3.0 = "doc ''u3'' ''z''" and sel = "[]"]
  note g = truncateContentsToFit_greedy [where W = 60 and enc = guardedTokens
      and t = "''<|endoftext|>''" and ds = "[doc ''u1'' ''x'']" and ?d1.0 = "doc ''u1'' ''x''"
      and ?d2.0 = "doc ''u2'' ''y''" and ?d3.0 = "doc ''u3'' ''z''" and sel = "[]"]
  have acc: "accepts charTokens s" for s
    by (simp add: accepts_def charTokens_def)
  have h: "tokens charTokens ''ab'' < 60"
      "cumulativeTokens charTokens ''ab'' [doc ''u1'' ''x'', doc ''u2'' ''y''] \<le> 60"
      "60 < cumulativeTokens charTokens ''ab'' ?ds"
      "(1::int) \<le> tokens charTokens ''ab''"
    by code_simp+
  have three: "truncateContentsToFit charTokens ''ab'' ?ds 60 = Inr [doc ''u1'' ''x'', doc ''u2'' ''y'']"
    using t [THEN conjunct2, THEN conjunct2, THEN conjunct2, THEN conjunct2, THEN mp] acc h
    by blast
  have within: "cumulativeTokens charTokens ''ab'' [doc ''u1'' ''x'', doc ''u2'' ''y''] \<le> 60"
    using t [THEN conjunct2, THEN conjunct2, THEN conjunct2, THEN conjunct1, THEN mp] three h
    by simp
  have none: "truncateContentsToFit charTokens ''ab'' [doc ''u1'' ''x''] 1 = Inr []"
    using t1 [THEN conjunct2, THEN conjunct1, THEN mp] acc h(4) by blast
  have rej: "\<not> accepts guardedTokens ''<|endoftext|>''"
    by (simp add: accepts_def guardedTokens_def)
  have thrown: "truncateContentsToFit guardedTokens ''<|endoftext|>'' [doc ''u1'' ''x''] 60 =
      Inl TokenizerError"
    using g [THEN conjunct1, THEN mp, OF rej] .
  show ?thesis
    using acc h three within none rej thrown by blast
qed

text \<open>
  The claim as stated fails on a document that holds a special token: the template
  leaves room, so the claim has the walk return a prefix of the list, and the code throws.
  And when the template alone exceeds the window, the empty selection that is returned
  measures more than the window.
\<close>

theorem truncateContentsToFit_returns_counterexample:
  "accepts guardedTokens ''ab'' \<and> tokens guardedTokens ''ab'' < 1000 \<and>
   truncateContentsToFit guardedTokens ''ab'' [doc ''u1'' ''<|endoftext|>''] 1000 =
     Inl TokenizerError \<and>
   truncateContentsToFit guardedTokens ''ab'' [doc ''u1'' ''<|endoftext|>''] 1000 \<noteq> Inr [] \<and>
   truncateContentsToFit guardedTokens ''ab'' [doc ''u1'' ''<|endoftext|>''] 1000 \<noteq>
     Inr [doc ''u1'' ''<|endoftext|>''] \<and>
   truncateContentsToFit charTokens ''abc'' [doc ''u1'' ''x''] 1 = Inr [] \<and>
   1 < cumulativeTokens charTokens ''abc'' []"
proof -
  have a: "accepts guardedTokens ''ab''" "tokens guardedTokens ''ab'' < 1000"
    by code_simp+
  have b: "truncateContentsToFit guardedTokens ''ab'' [doc ''u1'' ''<|endoftext|>''] 1000 =
      Inl TokenizerError"
    by code_simp
  have c: "truncateContentsToFit charTokens ''abc'' [doc ''u1'' ''x''] 1 = Inr []"
    by code_simp
  have d: "1 < cumulativeTokens charTokens ''abc'' []"
    by code_simp
  show ?thesis
    using a b c d by simp
qed

section \<open>The reference ledger\<close>

lemma indexOf_notin: "x \<notin> set xs \<Longrightarrow> indexOf xs x = - 1"
  by (induction xs) (auto simp: Let_def)

lemma indexOf_in_nonneg: "x \<in> set xs \<Longrightarrow> 0 \<le> indexOf xs x"
  by (induction xs) (auto simp: Let_def)

lemma indexOf_in_bound: "x \<in> set xs \<Longrightarrow> indexOf xs x < int (length xs)"
  by (induction xs) (auto simp: Let_def)

lemma indexOf_nth: "x \<in> set xs \<Longrightarrow> xs ! nat (indexOf xs x) = x"
proof (induction xs)
  case Nil
  then show ?case by simp
next
  case (Cons y ys)
  show ?case
  proof (cases "y = x")
    case True
    then show ?thesis by simp
  next
    case False
    with Cons.prems have in_ys: "x \<in> set ys" by simp
    have "0 \<le> indexOf ys x" using in_ys by (rule indexOf_in_nonneg)
    then show ?thesis
      using False Cons.IH [OF in_ys] by (simp add: Let_def nat_add_distrib)
  qed
qed

lemma indexOf_append_in: "x \<in> set xs \<Longrightarrow> indexOf (xs @ ys) x = indexOf xs x"
proof (induction xs)
  case Nil
  then show ?case by simp
next
  case (Cons y ys')
  then show ?case
    using indexOf_in_nonneg [of x ys'] by (auto simp: Let_def)
qed

lemma indexOf_append_new: "x \<notin> set xs \<Longrightarrow> indexOf (xs @ [x]) x = int (length xs)"
  by (induction xs) (auto simp: Let_def)

lemma indexOf_prefix: "prefix xs zs \<Longrightarrow> x \<in> set xs \<Longrightarrow> indexOf zs x = indexOf xs x"
  by (auto simp: prefix_def indexOf_append_in)

lemma citeOrGetIndex_new:
  "url \<notin> set used \<Longrightarrow> citeOrGetIndex used url = (used @ [url], int (length used) + 1)"
  by (simp add: citeOrGetIndex_def indexOf_append_new)

lemma citeOrGetIndex_old:
  "url \<in> set used \<Longrightarrow> citeOrGetIndex used url = (used, indexOf used url + 1)"
  by (simp add: citeOrGetIndex_def)

lemma citeOrGetIndex_prefix: "prefix used (fst (citeOrGetIndex used url))"
  by (cases "url \<in> set used") (simp_all add: citeOrGetIndex_new citeOrGetIndex_old)

lemma citeOrGetIndex_mem: "url \<in> set (fst (citeOrGetIndex used url))"
  by (cases "url \<in> set used") (simp_all add: citeOrGetIndex_new citeOrGetIndex_old)

lemma resolveRef_prefix: "resolveRef tc used r = Inr (m, used') \<Longrightarrow> prefix used used'"
  by (auto simp: resolveRef_def Let_def citeOrGetIndex_prefix split: if_splits)

lemma mapRefs_prefix: "mapRefs tc rs used = Inr (ms, used') \<Longrightarrow> prefix used used'"
proof (induction rs arbitrary: used ms)
  case Nil
  then show ?case by simp
next
  case (Cons r rs)
  from Cons.prems obtain m used1 ms' where
    a: "resolveRef tc used r = Inr (m, used1)" and b: "mapRefs tc rs used1 = Inr (ms', used')"
    by (auto split: sum.splits)
  have "prefix used used1" using a by (rule resolveRef_prefix)
  also have "prefix used1 used'" using b by (rule Cons.IH)
  finally show ?case .
qed

lemma processParagraph_prefix: "processParagraph tc para used = Inr (t, used') \<Longrightarrow> prefix used used'"
  by (auto simp: processParagraph_def Let_def split: sum.splits dest: mapRefs_prefix)

lemma processParagraphs_prefix:
  "processParagraphs tc paras used = Inr (ts, used') \<Longrightarrow> prefix used used'"
proof (induction paras arbitrary: used ts)
  case Nil
  then show ?case by simp
next
  case (Cons p ps)
  from Cons.prems obtain t used1 ts' where
    a: "processParagraph tc p used = Inr (t, used1)"
    and b: "processParagraphs tc ps used1 = Inr (ts', used')"
    by (auto split: sum.splits)
  have "prefix used used1" using a by (rule processParagraph_prefix)
  also have "prefix used1 used'" using b by (rule Cons.IH)
  finally show ?case .
qed

text \<open>What a chapter-body call that returns has done.\<close>

lemma generateChapterContent_Inr:
  assumes "generateChapterContent enc llm cfg subject c chapters contents previousChapter st = Inr (res, st')"
  obtains tc object texts used' where
    "truncateContentsToFit enc (basePrompt cfg subject c chapters previousChapter) contents
       (cfg_contextWindow cfg) = Inr tc"
    "llm (length (calls st))
       (basePrompt cfg subject c chapters previousChapter @ newline @ newline @ contentsText tc) =
     Some object"
    "processParagraphs tc (obj_paragraphs object) (usedReferences st) = Inr (texts, used')"
    "res = \<lparr>res_summary = obj_summary object, res_text = join (newline @ newline) texts\<rparr>"
    "st' = st\<lparr>usedReferences := used',
              calls := calls st @
                [\<lparr>call_prompt =
                    basePrompt cfg subject c chapters previousChapter @ newline @ newline @
                    contentsText tc,
                  call_contents = tc, call_object = object\<rparr>]\<rparr>"
  using assms
  by (auto simp: generateChapterContent_def Let_def split: sum.splits option.splits)

lemma generateChapterContent_ledger_prefix:
  "generateChapterContent enc llm cfg subject chapter chapters contents previousChapter st = Inr (res, st')
   \<Longrightarrow> prefix (usedReferences st) (usedReferences st')"
  by (erule generateChapterContent_Inr) (auto dest: processParagraphs_prefix)

lemma chapterLoop_Cons_Inr:
  assumes "chapterLoop enc llm cfg subject chapters contents (c # rest) (pt, ccs, st) = Inr final"
  obtains content st1 where
    "generateChapterContent enc llm cfg subject c chapters contents pt st = Inr (content, st1)"
    "chapterLoop enc llm cfg subject chapters contents rest
       (pt @ res_text content,
        ccs @ [\<lparr>cc_number = ch_number c, cc_title = ch_title c,
                 cc_content = res_text content, cc_summary = res_summary content\<rparr>],
        st1) = Inr final"
  using assms by (auto split: sum.splits)

lemma chapterLoop_ledger_prefix:
  "chapterLoop enc llm cfg subject chapters contents rest (pt, ccs, st) = Inr (pt', ccs', st')
   \<Longrightarrow> prefix (usedReferences st) (usedReferences st')"
proof (induction rest arbitrary: pt ccs st)
  case Nil
  then show ?case by simp
next
  case (Cons c rest)
  from Cons.prems show ?case
  proof (rule chapterLoop_Cons_Inr)
    fix content st1
    assume g: "generateChapterContent enc llm cfg subject c chapters contents pt st = Inr (content, st1)"
      and l: "chapterLoop enc llm cfg subject chapters contents rest
       (pt @ res_text content,
        ccs @ [\<lparr>cc_number = ch_number c, cc_title = ch_title c,
                 cc_content = res_text content, cc_summary = res_summary content\<rparr>],
        st1) = Inr (pt', ccs', st')"
    have "prefix (usedReferences st) (usedReferences st1)"
      using g by (rule generateChapterContent_ledger_prefix)
    also have "prefix \<dots> (usedReferences st')"
      using l by (rule Cons.IH)
    finally show ?thesis .
  qed
qed

text \<open>
  A call returns when the tokenizer accepts every text, the backend answers every call
  and its answers hold whole reference numbers only.
\<close>

lemma isWhole_pred: "isWhole r \<Longrightarrow> isWhole (r - 1)"
proof -
  assume "isWhole r"
  then have "rat_of_int \<lfloor>r\<rfloor> = r"
    unfolding isWhole_def .
  then obtain n where "r = rat_of_int n"
    by metis
  then have "r - 1 = rat_of_int (n - 1)"
    by simp
  then show ?thesis
    unfolding isWhole_def by (metis floor_of_int)
qed

lemma truncateLoop_returns: "\<forall>s. enc s \<noteq> None \<Longrightarrow> \<not> isl (truncateLoop enc W cs acc n)"
proof (induction cs arbitrary: acc n)
  case Nil
  then show ?case by simp
next
  case (Cons c cs)
  have "accepts enc (contentText (length acc + 1) c)"
    using Cons.prems by (simp add: accepts_def)
  then show ?case
    using Cons.IH [OF Cons.prems] by (simp add: estimateTokens_accepts)
qed

lemma truncateContentsToFit_returns:
  "\<forall>s. enc s \<noteq> None \<Longrightarrow> \<not> isl (truncateContentsToFit enc t ds W)"
proof -
  assume a: "\<forall>s. enc s \<noteq> None"
  then have "accepts enc t"
    by (simp add: accepts_def)
  then show ?thesis
    using truncateLoop_returns [OF a]
    by (simp add: truncateContentsToFit_def estimateTokens_accepts)
qed

lemma resolveRef_returns: "isWhole r \<Longrightarrow> \<not> isl (resolveRef tc used r)"
  by (simp add: resolveRef_def Let_def isWhole_pred)

lemma mapRefs_returns: "\<forall>r\<in>set rs. isWhole r \<Longrightarrow> \<not> isl (mapRefs tc rs used)"
proof (induction rs arbitrary: used)
  case Nil
  then show ?case by simp
next
  case (Cons r rs)
  then have "\<not> isl (resolveRef tc used r)"
    by (simp add: resolveRef_returns)
  then obtain m used1 where a: "resolveRef tc used r = Inr (m, used1)"
    by (cases "resolveRef tc used r") auto
  have "\<not> isl (mapRefs tc rs used1)"
    using Cons by simp
  then obtain ms used2 where "mapRefs tc rs used1 = Inr (ms, used2)"
    by (cases "mapRefs tc rs used1") auto
  then show ?case
    using a by simp
qed

lemma processParagraph_returns:
  "\<forall>r\<in>set (para_references para). isWhole r \<Longrightarrow> \<not> isl (processParagraph tc para used)"
proof -
  assume "\<forall>r\<in>set (para_references para). isWhole r"
  then have "\<not> isl (mapRefs tc (para_references para) used)"
    by (rule mapRefs_returns)
  then obtain ms used' where "mapRefs tc (para_references para) used = Inr (ms, used')"
    by (cases "mapRefs tc (para_references para) used") auto
  then show ?thesis
    by (simp add: processParagraph_def Let_def)
qed

lemma processParagraphs_returns:
  "\<forall>para\<in>set paras. \<forall>r\<in>set (para_references para). isWhole r \<Longrightarrow>
   \<not> isl (processParagraphs tc paras used)"
proof (induction paras arbitrary: used)
  case Nil
  then show ?case by simp
next
  case (Cons p ps)
  then have "\<not> isl (processParagraph tc p used)"
    by (simp add: processParagraph_returns)
  then obtain t used1 where a: "processParagraph tc p used = Inr (t, used1)"
    by (cases "processParagraph tc p used") auto
  have "\<not> isl (processParagraphs tc ps used1)"
    using Cons by simp
  then obtain ts used2 where "processParagraphs tc ps used1 = Inr (ts, used2)"
    by (cases "processParagraphs tc ps used1") auto
  then show ?case
    using a by simp
qed

lemma generateChapterContent_answers:
  assumes enc: "\<forall>s. enc s \<noteq> None"
    and llm: "\<forall>n p. \<exists>object. llm n p = Some object \<and>
        (\<forall>para\<in>set (obj_paragraphs object). \<forall>r\<in>set (para_references para). isWhole r)"
  shows "\<not> isl (generateChapterContent enc llm cfg subject c chapters contents previousChapter st)"
proof -
  let ?bp = "basePrompt cfg subject c chapters previousChapter"
  from truncateContentsToFit_returns [OF enc, of ?bp contents "cfg_contextWindow cfg"]
  obtain tc where
    tc: "truncateContentsToFit enc ?bp contents (cfg_contextWindow cfg) = Inr tc"
    by (cases "truncateContentsToFit enc ?bp contents (cfg_contextWindow cfg)") auto
  from llm obtain object where
    object: "llm (length (calls st)) (?bp @ newline @ newline @ contentsText tc) = Some object"
      "\<forall>para\<in>set (obj_paragraphs object). \<forall>r\<in>set (para_references para). isWhole r"
    by blast
  from processParagraphs_returns [OF object(2), of tc "usedReferences st"]
  obtain texts used' where
    "processParagraphs tc (obj_paragraphs object) (usedReferences st) = Inr (texts, used')"
    by (cases "processParagraphs tc (obj_paragraphs object) (usedReferences st)") auto
  then show ?thesis
    using tc object(1) by (simp add: generateChapterContent_def Let_def)
qed

lemma chapterLoop_answers:
  assumes enc: "\<forall>s. enc s \<noteq> None"
    and llm: "\<forall>n p. \<exists>object. llm n p = Some object \<and>
        (\<forall>para\<in>set (obj_paragraphs object). \<forall>r\<in>set (para_references para). isWhole r)"
  shows "\<not> isl (chapterLoop enc llm cfg subject chapters contents rest s)"
proof (induction rest arbitrary: s)
  case Nil
  then show ?case by simp
next
  case (Cons c rest)
  obtain pt ccs st where s: "s = (pt, ccs, st)"
    by (cases s) auto
  have "\<not> isl (generateChapterContent enc llm cfg subject c chapters contents pt st)"
    using enc llm by (rule generateChapterContent_answers)
  then obtain content st1 where
    "generateChapterContent enc llm cfg subject c chapters contents pt st = Inr (content, st1)"
    by (cases "generateChapterContent enc llm cfg subject c chapters contents pt st") auto
  then show ?case
    using Cons.IH by (simp add: s)
qed

lemma charTokens_accepts: "\<forall>s. charTokens s \<noteq> None"
  by (simp add: charTokens_def)

lemma isWhole_of_int: "isWhole (rat_of_int n)"
  by (simp add: isWhole_def)

lemma isWhole_numeral [simp]: "isWhole (numeral n)" "isWhole 1" "isWhole 0"
  using isWhole_of_int [of "numeral n"] isWhole_of_int [of 1] isWhole_of_int [of 0] by simp_all

lemma exampleModel_answers:
  "\<forall>n p. \<exists>object. exampleModel n p = Some object \<and>
     (\<forall>para\<in>set (obj_paragraphs object). \<forall>r\<in>set (para_references para). isWhole r)"
  by (simp add: exampleModel_def)

text \<open>
  C2. The ledger is the array \<open>usedReferences\<close>. Citing a URL it does not hold appends
  the URL and returns the new length, its 1-based position; citing a URL it holds leaves
  it as it is and returns the position of the URL. Whatever is appended after a URL's
  first citation, a later citation of that URL returns the index the first one returned.
  Citing \<open>u1\<close>, \<open>u2\<close>, \<open>u1\<close> from the empty ledger gives 1, 2, 1. A chapter-body call
  that returns, and the whole chapter loop, leave the earlier ledger as a prefix of the
  later one, so every URL already in it keeps its index.
\<close>

theorem usedReferences_ledger:
  "(url \<notin> set used \<longrightarrow> citeOrGetIndex used url = (used @ [url], int (length used) + 1)) \<and>
   (url \<in> set used \<longrightarrow> citeOrGetIndex used url = (used, indexOf used url + 1)) \<and>
   (prefix (fst (citeOrGetIndex used url)) later \<longrightarrow>
      citeOrGetIndex later url = (later, snd (citeOrGetIndex used url))) \<and>
   (u1 \<noteq> u2 \<longrightarrow>
      citeOrGetIndex [] u1 = ([u1], 1) \<and> citeOrGetIndex [u1] u2 = ([u1, u2], 2) \<and>
      citeOrGetIndex [u1, u2] u1 = ([u1, u2], 1)) \<and>
   (generateChapterContent enc llm cfg subject c chapters contents previousChapter st = Inr (res, st') \<longrightarrow>
      prefix (usedReferences st) (usedReferences st') \<and>
      (\<forall>u\<in>set (usedReferences st). indexOf (usedReferences st') u = indexOf (usedReferences st) u)) \<and>
   (generateChapters enc llm cfg subject chapters contents st = Inr (pt, ccs, st'') \<longrightarrow>
      prefix (usedReferences st) (usedReferences st'') \<and>
      (\<forall>u\<in>set (usedReferences st). indexOf (usedReferences st'') u = indexOf (usedReferences st) u))"
proof -
  have later: "citeOrGetIndex later url = (later, snd (citeOrGetIndex used url))"
    if p: "prefix (fst (citeOrGetIndex used url)) later"
  proof -
    have m: "url \<in> set (fst (citeOrGetIndex used url))" by (rule citeOrGetIndex_mem)
    then have m': "url \<in> set later" using p set_mono_prefix by blast
    have "snd (citeOrGetIndex used url) = indexOf (fst (citeOrGetIndex used url)) url + 1"
      by (simp add: citeOrGetIndex_def Let_def)
    also have "\<dots> = indexOf later url + 1"
      using indexOf_prefix [OF p m] by simp
    finally show ?thesis
      using m' by (simp add: citeOrGetIndex_old)
  qed
  have three: "citeOrGetIndex [] u1 = ([u1], 1) \<and> citeOrGetIndex [u1] u2 = ([u1, u2], 2) \<and>
      citeOrGetIndex [u1, u2] u1 = ([u1, u2], 1)" if "u1 \<noteq> u2"
    using that by (auto simp: citeOrGetIndex_def Let_def)
  have call: "prefix (usedReferences st) (usedReferences st')"
    if "generateChapterContent enc llm cfg subject c chapters contents previousChapter st = Inr (res, st')"
    using that by (rule generateChapterContent_ledger_prefix)
  have loop: "prefix (usedReferences st) (usedReferences st'')"
    if "generateChapters enc llm cfg subject chapters contents st = Inr (pt, ccs, st'')"
    using that unfolding generateChapters_def by (rule chapterLoop_ledger_prefix)
  show ?thesis
    using later three call loop
    by (simp add: citeOrGetIndex_new citeOrGetIndex_old indexOf_prefix)
qed

theorem usedReferences_ledger_witness:
  "citeOrGetIndex [''u1''] ''u2'' = ([''u1'', ''u2''], 2) \<and>
   citeOrGetIndex [''u1'', ''u2''] ''u2'' = ([''u1'', ''u2''], 2) \<and>
   citeOrGetIndex [''u1'', ''u2'', ''u3''] ''u2'' = ([''u1'', ''u2'', ''u3''], 2) \<and>
   citeOrGetIndex [] ''u1'' = ([''u1''], 1) \<and>
   citeOrGetIndex [''u1'', ''u2''] ''u1'' = ([''u1'', ''u2''], 1) \<and>
   prefix [''u1''] (usedReferences (snd (projr exampleCall))) \<and>
   indexOf (usedReferences (snd (projr exampleCall))) ''u1'' = 0 \<and>
   prefix [''u1''] (usedReferences (snd (snd (projr exampleChapters)))) \<and>
   indexOf (usedReferences (snd (snd (projr exampleChapters)))) ''u1'' = 0"
proof -
  have "\<not> isl exampleCall"
    unfolding exampleCall_def
    using charTokens_accepts exampleModel_answers by (rule generateChapterContent_answers)
  then have c: "generateChapterContent charTokens exampleModel exampleConfig ''solar''
      \<lparr>ch_number = 1, ch_title = ''Intro''\<rparr> [\<lparr>ch_number = 1, ch_title = ''Intro''\<rparr>]
      [doc ''u1'' ''x'', doc ''u2'' ''y''] [] exampleLedger =
      Inr (fst (projr exampleCall), snd (projr exampleCall))"
    by (simp add: exampleCall_def)
  have "\<not> isl exampleChapters"
    unfolding exampleChapters_def generateChapters_def
    using charTokens_accepts exampleModel_answers by (rule chapterLoop_answers)
  then have d: "generateChapters charTokens exampleModel exampleConfig ''solar''
      [\<lparr>ch_number = 1, ch_title = ''Intro''\<rparr>, \<lparr>ch_number = 2, ch_title = ''More''\<rparr>]
      [doc ''u1'' ''x'', doc ''u2'' ''y''] exampleLedger =
      Inr (fst (projr exampleChapters), fst (snd (projr exampleChapters)),
           snd (snd (projr exampleChapters)))"
    by (simp add: exampleChapters_def)
  have u: "usedReferences exampleLedger = [''u1'']"
    by (simp add: exampleLedger_def newResearch_def)
  have new: "''u2'' \<notin> set [''u1'']" and old: "''u2'' \<in> set [''u1'', ''u2'']"
    and ne: "''u1'' \<noteq> ''u2''"
    by simp_all
  have p: "prefix (fst (citeOrGetIndex [''u1''] ''u2'')) [''u1'', ''u2'', ''u3'']"
    by code_simp
  note t = usedReferences_ledger [where url = "''u2''" and used = "[''u1'']"
      and later = "[''u1'', ''u2'', ''u3'']" and ?u1.0 = "''u1''" and ?u2.0 = "''u2''"
      and enc = charTokens and llm = exampleModel and cfg = exampleConfig
      and subject = "''solar''" and c = "\<lparr>ch_number = 1, ch_title = ''Intro''\<rparr>"
      and chapters = "[\<lparr>ch_number = 1, ch_title = ''Intro''\<rparr>]"
      and contents = "[doc ''u1'' ''x'', doc ''u2'' ''y'']" and previousChapter = "[]"
      and st = exampleLedger and res = "fst (projr exampleCall)" and st' = "snd (projr exampleCall)"]
  note t' = usedReferences_ledger [where url = "''u2''" and used = "[''u1'', ''u2'']"
      and enc = charTokens and llm = exampleModel and cfg = exampleConfig
      and subject = "''solar''"
      and chapters = "[\<lparr>ch_number = 1, ch_title = ''Intro''\<rparr>, \<lparr>ch_number = 2, ch_title = ''More''\<rparr>]"
      and contents = "[doc ''u1'' ''x'', doc ''u2'' ''y'']"
      and st = exampleLedger and pt = "fst (projr exampleChapters)"
      and ccs = "fst (snd (projr exampleChapters))" and st'' = "snd (snd (projr exampleChapters))"]
  have r1: "citeOrGetIndex [''u1''] ''u2'' = ([''u1'', ''u2''], 2)"
    using t [THEN conjunct1, rule_format, OF new] by simp
  have r2: "citeOrGetIndex [''u1'', ''u2''] ''u2'' = ([''u1'', ''u2''], 2)"
    using t' [THEN conjunct2, THEN conjunct1, rule_format, OF old] by simp
  have r3: "citeOrGetIndex [''u1'', ''u2'', ''u3''] ''u2'' = ([''u1'', ''u2'', ''u3''], 2)"
    using t [THEN conjunct2, THEN conjunct2, THEN conjunct1, rule_format, OF p] r1 by simp
  have r4: "citeOrGetIndex [] ''u1'' = ([''u1''], 1) \<and>
      citeOrGetIndex [''u1'', ''u2''] ''u1'' = ([''u1'', ''u2''], 1)"
    using t [THEN conjunct2, THEN conjunct2, THEN conjunct2, THEN conjunct1, rule_format, OF ne]
    by simp
  have r5: "prefix [''u1''] (usedReferences (snd (projr exampleCall))) \<and>
      indexOf (usedReferences (snd (projr exampleCall))) ''u1'' = 0"
    using t [THEN conjunct2, THEN conjunct2, THEN conjunct2, THEN conjunct2, THEN conjunct1,
        rule_format, OF c]
    by (simp add: u)
  have r6: "prefix [''u1''] (usedReferences (snd (snd (projr exampleChapters)))) \<and>
      indexOf (usedReferences (snd (snd (projr exampleChapters)))) ''u1'' = 0"
    using t' [THEN conjunct2, THEN conjunct2, THEN conjunct2, THEN conjunct2, THEN conjunct2,
        rule_format, OF d]
    by (simp add: u)
  show ?thesis
    using r1 r2 r3 r4 r5 r6 by blast
qed

section \<open>The order of chapter generation\<close>

lemma generateChapterContent_call:
  assumes "generateChapterContent enc llm cfg subject c chapters contents previousChapter st = Inr (res, st')"
  shows "\<exists>object. calls st' = calls st @
           [\<lparr>call_prompt = chapterPrompt enc cfg subject c chapters contents previousChapter,
             call_contents = budgeted enc cfg subject c chapters contents previousChapter,
             call_object = object\<rparr>]"
  using assms
  by (rule generateChapterContent_Inr) (simp add: chapterPrompt_def budgeted_def)

lemma chapterLoop_trace:
  "chapterLoop enc llm cfg subject chapters contents rest (pt, ccs, st) = Inr (pt', ccs', st')
   \<Longrightarrow> \<exists>newccs newcalls.
         ccs' = ccs @ newccs \<and> calls st' = calls st @ newcalls \<and>
         length newccs = length rest \<and> length newcalls = length rest \<and>
         map cc_number newccs = map ch_number rest \<and>
         (\<forall>j<length rest.
            call_prompt (newcalls ! j) =
              chapterPrompt enc cfg subject (rest ! j) chapters contents
                (pt @ concat (map cc_content (take j newccs))))"
proof (induction rest arbitrary: pt ccs st)
  case Nil
  then show ?case by simp
next
  case (Cons c rest)
  from Cons.prems show ?case
  proof (rule chapterLoop_Cons_Inr)
    fix content :: chapterResult and st1
    let ?cc = "\<lparr>cc_number = ch_number c, cc_title = ch_title c,
                 cc_content = res_text content, cc_summary = res_summary content\<rparr>"
    assume g: "generateChapterContent enc llm cfg subject c chapters contents pt st = Inr (content, st1)"
      and l: "chapterLoop enc llm cfg subject chapters contents rest
       (pt @ res_text content, ccs @ [?cc], st1) = Inr (pt', ccs', st')"
    from generateChapterContent_call [OF g] obtain object where call:
      "calls st1 = calls st @
           [\<lparr>call_prompt = chapterPrompt enc cfg subject c chapters contents pt,
             call_contents = budgeted enc cfg subject c chapters contents pt,
             call_object = object\<rparr>]"
      by blast
    let ?call = "\<lparr>call_prompt = chapterPrompt enc cfg subject c chapters contents pt,
             call_contents = budgeted enc cfg subject c chapters contents pt,
             call_object = object\<rparr>"
    from Cons.IH [OF l] obtain newccs newcalls where new:
      "ccs' = (ccs @ [?cc]) @ newccs" "calls st' = calls st1 @ newcalls"
      "length newccs = length rest" "length newcalls = length rest"
      "map cc_number newccs = map ch_number rest"
      "\<forall>j<length rest.
            call_prompt (newcalls ! j) =
              chapterPrompt enc cfg subject (rest ! j) chapters contents
                ((pt @ res_text content) @ concat (map cc_content (take j newccs)))"
      by blast
    have prompts: "call_prompt ((?call # newcalls) ! j) =
              chapterPrompt enc cfg subject ((c # rest) ! j) chapters contents
                (pt @ concat (map cc_content (take j (?cc # newccs))))"
      if "j < length (c # rest)" for j
    proof (cases j)
      case 0
      then show ?thesis by simp
    next
      case (Suc k)
      then have "k < length rest" using that by simp
      then show ?thesis
        using new(6) Suc by simp
    qed
    show ?thesis
      using call new(1-5) prompts
      by (intro exI [of _ "?cc # newccs"] exI [of _ "?call # newcalls"]) simp
  qed
qed

lemma sublist_nth_concat: "i < length xs \<Longrightarrow> sublist (xs ! i) (concat xs)"
proof (induction xs arbitrary: i)
  case Nil
  then show ?case by simp
next
  case (Cons x xs)
  show ?case
  proof (cases i)
    case 0
    then show ?thesis by (simp add: sublist_append_rightI)
  next
    case (Suc k)
    then have "sublist (xs ! k) (concat xs)"
      using Cons.prems Cons.IH [of k] by simp
    then obtain a b where "concat xs = a @ (xs ! k) @ b"
      by (auto simp: sublist_def)
    then have "concat (x # xs) = (x @ a) @ (xs ! k) @ b"
      by simp
    then show ?thesis
      unfolding sublist_def using Suc by (metis nth_Cons_Suc)
  qed
qed

lemma chapterPrompt_contains:
  "sublist t previousChapter \<Longrightarrow>
   sublist t (chapterPrompt enc cfg subject c chapters contents previousChapter)"
proof -
  assume "sublist t previousChapter"
  then obtain a b where "previousChapter = a @ t @ b"
    by (auto simp: sublist_def)
  then have "chapterPrompt enc cfg subject c chapters contents previousChapter =
      (promptHead cfg subject c chapters @ a) @ t @
      (b @ newline @ ''</previous_chapter>'' @ newline @ newline @
       contentsText (budgeted enc cfg subject c chapters contents previousChapter))"
    by (simp add: chapterPrompt_def basePrompt_def)
  then show ?thesis
    unfolding sublist_def by blast
qed

text \<open>
  C3, as amended. A chapter loop that returns has made one call per chapter of the
  outline, in the order of the outline as the outline stage returned it: the \<open>j\<close>-th
  call asks for the \<open>j\<close>-th chapter of the list, and the bodies are stored in that
  order. Its prompt carries, between the \<^verbatim>\<open>previous_chapter\<close> tags, the texts of the
  chapters generated before it, concatenated; so the text of every earlier chapter of
  the list occurs verbatim in the prompt of every later one.
\<close>

theorem chapters_generated_in_outline_order:
  "generateChapters enc llm cfg subject chapters contents st = Inr (pt, ccs, st') \<and> calls st = [] \<longrightarrow>
     length ccs = length chapters \<and> length (calls st') = length chapters \<and>
     map cc_number ccs = map ch_number chapters \<and>
     (\<forall>j<length chapters.
        call_prompt (calls st' ! j) =
          chapterPrompt enc cfg subject (chapters ! j) chapters contents
            (concat (map cc_content (take j ccs)))) \<and>
     (\<forall>j<length chapters. \<forall>i<j. sublist (cc_content (ccs ! i)) (call_prompt (calls st' ! j)))"
proof
  assume a: "generateChapters enc llm cfg subject chapters contents st = Inr (pt, ccs, st') \<and> calls st = []"
  then have "chapterLoop enc llm cfg subject chapters contents chapters ([], [], st) = Inr (pt, ccs, st')"
    by (simp add: generateChapters_def)
  from chapterLoop_trace [OF this] a have t:
    "length ccs = length chapters" "length (calls st') = length chapters"
    "map cc_number ccs = map ch_number chapters"
    "\<forall>j<length chapters.
        call_prompt (calls st' ! j) =
          chapterPrompt enc cfg subject (chapters ! j) chapters contents
            (concat (map cc_content (take j ccs)))"
    by auto
  have "sublist (cc_content (ccs ! i)) (call_prompt (calls st' ! j))"
    if "j < length chapters" "i < j" for i j
  proof -
    have "i < length (map cc_content (take j ccs))"
      using that t(1) by simp
    from sublist_nth_concat [OF this]
    have "sublist (cc_content (ccs ! i)) (concat (map cc_content (take j ccs)))"
      using that t(1) by simp
    then show ?thesis
      using t(4) that(1) by (simp add: chapterPrompt_contains)
  qed
  then show "length ccs = length chapters \<and> length (calls st') = length chapters \<and>
     map cc_number ccs = map ch_number chapters \<and>
     (\<forall>j<length chapters.
        call_prompt (calls st' ! j) =
          chapterPrompt enc cfg subject (chapters ! j) chapters contents
            (concat (map cc_content (take j ccs)))) \<and>
     (\<forall>j<length chapters. \<forall>i<j. sublist (cc_content (ccs ! i)) (call_prompt (calls st' ! j)))"
    using t by blast
qed

lemma countingModel_answers:
  "\<forall>n p. \<exists>object. countingModel n p = Some object \<and>
     (\<forall>para\<in>set (obj_paragraphs object). \<forall>r\<in>set (para_references para). isWhole r)"
  by (simp add: countingModel_def)

lemma unsortedRun_returns:
  "generateChapters charTokens countingModel exampleConfig ''solar'' unsortedOutline []
     (newResearch Map.empty) =
   Inr (fst (projr unsortedRun), fst (snd (projr unsortedRun)), snd (snd (projr unsortedRun)))"
proof -
  have "\<not> isl unsortedRun"
    unfolding unsortedRun_def generateChapters_def
    using charTokens_accepts countingModel_answers by (rule chapterLoop_answers)
  then show ?thesis
    by (simp add: unsortedRun_def)
qed

lemma countingCall:
  "generateChapterContent charTokens countingModel cfg subject c chapters [] previousChapter st =
     Inr (\<lparr>res_summary = ''summary'',
            res_text = ''Body written by call '' @ digits (length (calls st))\<rparr>,
          st\<lparr>usedReferences := usedReferences st,
             calls := calls st @
               [\<lparr>call_prompt = basePrompt cfg subject c chapters previousChapter @ newline @ newline,
                 call_contents = [],
                 call_object =
                   \<lparr>obj_summary = ''summary'',
                    obj_paragraphs =
                      [\<lparr>para_text = ''Body written by call '' @ digits (length (calls st)),
                        para_references = []\<rparr>]\<rparr>\<rparr>]\<rparr>)"
  by (simp add: generateChapterContent_def truncateContentsToFit_def estimateTokens_def
      charTokens_def contentsText_def countingModel_def processParagraph_def filterBoolean_def
      Let_def)

lemma digits_small: "digits 0 = ''0''" "digits (Suc 0) = ''1''" "digits (Suc (Suc 0)) = ''2''"
  by code_simp+

lemma chapterPrompt_no_contents:
  "chapterPrompt enc cfg subject c chapters [] previousChapter =
   basePrompt cfg subject c chapters previousChapter @ newline @ newline"
  by (simp add: chapterPrompt_def budgeted_def truncateContentsToFit_def contentsText_def Let_def
      split: sum.splits)

lemma unsortedRun_value:
  "fst (snd (projr unsortedRun)) =
     [\<lparr>cc_number = 2, cc_title = ''Second'', cc_content = ''Body written by call 0'',
       cc_summary = ''summary''\<rparr>,
      \<lparr>cc_number = 1, cc_title = ''First'', cc_content = ''Body written by call 1'',
       cc_summary = ''summary''\<rparr>,
      \<lparr>cc_number = 3, cc_title = ''Third'', cc_content = ''Body written by call 2'',
       cc_summary = ''summary''\<rparr>]"
  "call_prompt (calls (snd (snd (projr unsortedRun))) ! 0) =
     chapterPrompt charTokens exampleConfig ''solar'' \<lparr>ch_number = 2, ch_title = ''Second''\<rparr>
       unsortedOutline [] []"
  unfolding unsortedRun_def generateChapters_def
  by (simp_all add: unsortedOutline_def countingCall newResearch_def digits_small
      chapterPrompt_no_contents)

theorem chapters_generated_in_outline_order_witness:
  "map cc_number (fst (snd (projr unsortedRun))) = [2, 1, 3] \<and>
   length (calls (snd (snd (projr unsortedRun)))) = 3 \<and>
   call_prompt (calls (snd (snd (projr unsortedRun))) ! 1) =
     chapterPrompt charTokens exampleConfig ''solar'' \<lparr>ch_number = 1, ch_title = ''First''\<rparr>
       unsortedOutline [] (cc_content (fst (snd (projr unsortedRun)) ! 0)) \<and>
   sublist (cc_content (fst (snd (projr unsortedRun)) ! 0))
     (call_prompt (calls (snd (snd (projr unsortedRun))) ! 1))"
proof -
  let ?ccs = "fst (snd (projr unsortedRun))"
  let ?F = "snd (snd (projr unsortedRun))"
  have start: "calls (newResearch Map.empty) = []"
    by (simp add: newResearch_def)
  note t = chapters_generated_in_outline_order [where enc = charTokens and llm = countingModel
      and cfg = exampleConfig and subject = "''solar''" and chapters = unsortedOutline
      and contents = "[]" and st = "newResearch Map.empty" and pt = "fst (projr unsortedRun)"
      and ccs = ?ccs and st' = ?F, THEN mp, OF conjI, OF unsortedRun_returns start]
  have n: "length unsortedOutline = 3" "map ch_number unsortedOutline = [2, 1, 3]"
    "unsortedOutline ! 1 = \<lparr>ch_number = 1, ch_title = ''First''\<rparr>"
    by (simp_all add: unsortedOutline_def)
  have len: "length ?ccs = 3"
    using t n by simp
  then obtain a b c where abc: "?ccs = [a, b, c]"
    by (metis (no_types, lifting) length_0_conv length_Suc_conv numeral_3_eq_3)
  have w1: "map cc_number ?ccs = [2, 1, 3]"
    using t n by simp
  have w2: "length (calls ?F) = 3"
    using t n by simp
  have "call_prompt (calls ?F ! 1) =
      chapterPrompt charTokens exampleConfig ''solar'' (unsortedOutline ! 1) unsortedOutline []
        (concat (map cc_content (take 1 ?ccs)))"
    using t n(1) by simp
  then have w3: "call_prompt (calls ?F ! 1) =
      chapterPrompt charTokens exampleConfig ''solar'' \<lparr>ch_number = 1, ch_title = ''First''\<rparr>
        unsortedOutline [] (cc_content (?ccs ! 0))"
    using n(3) abc by simp
  have "\<forall>j<length unsortedOutline. \<forall>i<j.
      sublist (cc_content (?ccs ! i)) (call_prompt (calls ?F ! j))"
    using t by blast
  then have w4: "sublist (cc_content (?ccs ! 0)) (call_prompt (calls ?F ! 1))"
    using n(1) by (metis one_less_numeral_iff semiring_norm(77) zero_less_one)
  show ?thesis
    using w1 w2 w3 w4 by blast
qed

text \<open>
  The claim as stated fails on the outline numbered 2, 1, 3: the bodies are generated in
  the order 2, 1, 3, the first call is the one that asks for chapter 2, and its prompt
  does not contain the text of chapter 1, which is written by the call after it.
\<close>

theorem chapters_sorted_counterexample:
  "map ch_number unsortedOutline = [2, 1, 3] \<and>
   \<not> isl unsortedRun \<and>
   map cc_number (fst (snd (projr unsortedRun))) = [2, 1, 3] \<and>
   map cc_number (fst (snd (projr unsortedRun))) \<noteq> [1, 2, 3] \<and>
   sublist ''generate the complete text for chapter 2.''
     (call_prompt (calls (snd (snd (projr unsortedRun))) ! 0)) \<and>
   cc_number (fst (snd (projr unsortedRun)) ! 1) = 1 \<and>
   cc_content (fst (snd (projr unsortedRun)) ! 1) = ''Body written by call 1'' \<and>
   \<not> sublist (cc_content (fst (snd (projr unsortedRun)) ! 1))
     (call_prompt (calls (snd (snd (projr unsortedRun))) ! 0))"
proof -
  let ?ch2 = "\<lparr>ch_number = 2, ch_title = ''Second''\<rparr>"
  have c1: "map ch_number unsortedOutline = [2, 1, 3]"
    by (simp add: unsortedOutline_def)
  have c2: "\<not> isl unsortedRun"
    unfolding unsortedRun_def generateChapters_def
    using charTokens_accepts countingModel_answers by (rule chapterLoop_answers)
  have c3: "map cc_number (fst (snd (projr unsortedRun))) = [2, 1, 3]"
    by (simp add: unsortedRun_value)
  have p0: "call_prompt (calls (snd (snd (projr unsortedRun))) ! 0) =
      chapterPrompt charTokens exampleConfig ''solar'' ?ch2 unsortedOutline [] []"
    by (simp add: unsortedRun_value)
  have c4: "sublist ''generate the complete text for chapter 2.''
      (chapterPrompt charTokens exampleConfig ''solar'' ?ch2 unsortedOutline [] [])"
    unfolding chapterPrompt_no_contents by code_simp
  have c5: "cc_number (fst (snd (projr unsortedRun)) ! 1) = 1"
    by (simp add: unsortedRun_value)
  have c6: "cc_content (fst (snd (projr unsortedRun)) ! 1) = ''Body written by call 1''"
    by (simp add: unsortedRun_value)
  have c7: "\<not> sublist ''Body written by call 1''
      (chapterPrompt charTokens exampleConfig ''solar'' ?ch2 unsortedOutline [] [])"
    unfolding chapterPrompt_no_contents by code_simp
  have c8: "map cc_number (fst (snd (projr unsortedRun))) \<noteq> [1, 2, 3]"
    using c3 by simp
  show ?thesis
    unfolding p0 c6 using c1 c2 c3 c4 c5 c7 c8 by blast
qed

section \<open>Local reference numbers\<close>

lemma marker_nonempty: "marker i url \<noteq> []"
  by (simp add: marker_def)

lemma passesTest_of_int: "passesTest tc (rat_of_int n) \<longleftrightarrow> inRange tc n"
proof -
  have "rat_of_nat (length tc) + 1 = rat_of_int (int (length tc) + 1)"
    by simp
  then have "rat_of_int n < rat_of_nat (length tc) + 1 \<longleftrightarrow> n < int (length tc) + 1"
    by (metis of_int_less_iff)
  moreover have "1 \<le> rat_of_int n \<longleftrightarrow> 1 \<le> n"
    by simp
  ultimately show ?thesis
    by (auto simp: passesTest_def inRange_def)
qed

lemma resolveRef_dropped: "\<not> passesTest tc r \<Longrightarrow> resolveRef tc used r = Inr (None, used)"
  by (auto simp: resolveRef_def passesTest_def Let_def)

lemma resolveRef_whole:
  "passesTest tc r \<Longrightarrow> isWhole r \<Longrightarrow>
   resolveRef tc used r =
     Inr (Some (marker (snd (citeOrGetIndex used (item_url (tc ! nat \<lfloor>r - 1\<rfloor>))))
                 (item_url (tc ! nat \<lfloor>r - 1\<rfloor>))),
          fst (citeOrGetIndex used (item_url (tc ! nat \<lfloor>r - 1\<rfloor>))))"
  by (auto simp: resolveRef_def passesTest_def Let_def isWhole_pred)

lemma isWhole_succ: "isWhole (r - 1) \<Longrightarrow> isWhole r"
proof -
  assume "isWhole (r - 1)"
  then have "rat_of_int \<lfloor>r - 1\<rfloor> = r - 1"
    unfolding isWhole_def .
  then obtain n where "r - 1 = rat_of_int n"
    by metis
  then have "r = rat_of_int (n + 1)"
    by (simp add: algebra_simps)
  then show ?thesis
    unfolding isWhole_def by (metis floor_of_int)
qed

lemma resolveRef_fraction:
  "passesTest tc r \<Longrightarrow> \<not> isWhole r \<Longrightarrow> resolveRef tc used r = Inl ReferenceTypeError"
  using isWhole_succ [of r] by (auto simp: resolveRef_def passesTest_def Let_def)

lemma filterBoolean_Cons_None: "filterBoolean (None # ms) = filterBoolean ms"
  by (simp add: filterBoolean_def)

lemma filterBoolean_Cons_marker: "filterBoolean (Some (marker i u) # ms) = marker i u # filterBoolean ms"
  by (simp add: filterBoolean_def marker_nonempty)

text \<open>
  With whole numbers only, the map returns, and the numbers that fail the test of the
  callback leave no trace in its result.
\<close>

lemma mapRefs_filter:
  "\<forall>r\<in>set rs. isWhole r \<Longrightarrow>
   \<exists>ms ms' used'.
     mapRefs tc rs used = Inr (ms, used') \<and>
     mapRefs tc (filter (passesTest tc) rs) used = Inr (map Some ms', used') \<and>
     filterBoolean ms = ms' \<and> length ms' = length (filter (passesTest tc) rs)"
proof (induction rs arbitrary: used)
  case Nil
  then show ?case by (simp add: filterBoolean_def)
next
  case (Cons r rs)
  then have whole: "isWhole r" and rest: "\<forall>r\<in>set rs. isWhole r"
    by simp_all
  show ?case
  proof (cases "passesTest tc r")
    case True
    let ?url = "item_url (tc ! nat \<lfloor>r - 1\<rfloor>)"
    let ?used1 = "fst (citeOrGetIndex used ?url)"
    let ?m = "marker (snd (citeOrGetIndex used ?url)) ?url"
    from Cons.IH [OF rest, of ?used1] obtain ms ms' used' where ih:
      "mapRefs tc rs ?used1 = Inr (ms, used')"
      "mapRefs tc (filter (passesTest tc) rs) ?used1 = Inr (map Some ms', used')"
      "filterBoolean ms = ms'" "length ms' = length (filter (passesTest tc) rs)"
      by blast
    show ?thesis
      using True whole ih
      by (intro exI [of _ "Some ?m # ms"] exI [of _ "?m # ms'"] exI [of _ used'])
        (simp add: resolveRef_whole filterBoolean_Cons_marker)
  next
    case False
    from Cons.IH [OF rest, of used] obtain ms ms' used' where ih:
      "mapRefs tc rs used = Inr (ms, used')"
      "mapRefs tc (filter (passesTest tc) rs) used = Inr (map Some ms', used')"
      "filterBoolean ms = ms'" "length ms' = length (filter (passesTest tc) rs)"
      by blast
    show ?thesis
      using False ih
      by (intro exI [of _ "None # ms"] exI [of _ ms'] exI [of _ used'])
        (simp add: resolveRef_dropped filterBoolean_Cons_None)
  qed
qed

lemma filterBoolean_markers_only: "mapRefs tc rs used = Inr (map Some ms, used') \<Longrightarrow> filterBoolean (map Some ms) = ms"
proof (induction rs arbitrary: used ms)
  case Nil
  then show ?case by (auto simp: filterBoolean_def)
next
  case (Cons r rs)
  from Cons.prems obtain m used1 rest where
    a: "resolveRef tc used r = Inr (Some m, used1)"
    and b: "mapRefs tc rs used1 = Inr (map Some rest, used')" and ms: "ms = m # rest"
    by (auto split: sum.splits)
  have "m \<noteq> []"
    using a by (auto simp: resolveRef_def Let_def marker_nonempty split: if_splits)
  then show ?case
    using Cons.IH [OF b] ms by (simp add: filterBoolean_def)
qed

text \<open>A number that is not whole and passes the test makes the map throw.\<close>

lemma mapRefs_fraction:
  "\<exists>r\<in>set rs. passesTest tc r \<and> \<not> isWhole r \<Longrightarrow> mapRefs tc rs used = Inl ReferenceTypeError"
proof (induction rs arbitrary: used)
  case Nil
  then show ?case by simp
next
  case (Cons r rs)
  show ?case
  proof (cases "passesTest tc r \<and> \<not> isWhole r")
    case True
    then show ?thesis by (simp add: resolveRef_fraction)
  next
    case False
    then have later: "\<exists>r\<in>set rs. passesTest tc r \<and> \<not> isWhole r"
      using Cons.prems by auto
    from False obtain m used1 where "resolveRef tc used r = Inr (m, used1)"
      by (cases "passesTest tc r") (auto simp: resolveRef_dropped resolveRef_whole)
    then show ?thesis
      using Cons.IH [OF later] by simp
  qed
qed

lemma join_Nil: "join [] xs = concat xs"
proof (induction xs)
  case Nil
  then show ?case by simp
next
  case (Cons x xs)
  then show ?case by (cases xs) simp_all
qed

text \<open>
  C7, as amended. A whole reference number outside the budgeted list (at most 0, or
  beyond its length) resolves to no marker and leaves the ledger as it was; a whole
  number inside resolves to the URL of the document at that position, cites it in the
  ledger and yields the marker of the index the ledger gives. A number that is not whole
  is dropped when it is below 1 or at least the length plus one; from 1 up to the length
  plus one it passes the test, finds no document, and the callback throws: so for 2.5
  and two documents. A paragraph whose numbers are all whole is processed exactly as if
  the out-of-range numbers were not there: its text is the paragraph text, followed,
  when some number is in range, by a space and the markers of the in-range numbers, one
  for each, in order. A paragraph with a number that passes the test and is not whole
  throws. The paragraphs are processed in order, each from the ledger the one before
  left, and a chapter-body call whose budget and backend call return gives back the
  joined texts and the last ledger, or the throw of the paragraphs; it returns when all
  numbers of the answer are whole.
\<close>

theorem out_of_range_references_dropped:
  "(n \<le> 0 \<or> int (length tc) < n \<longrightarrow> resolveRef tc used (rat_of_int n) = Inr (None, used)) \<and>
   (0 < n \<and> n \<le> int (length tc) \<longrightarrow>
      resolveRef tc used (rat_of_int n) =
        Inr (Some (marker (snd (citeOrGetIndex used (item_url (tc ! nat (n - 1)))))
                    (item_url (tc ! nat (n - 1)))),
             fst (citeOrGetIndex used (item_url (tc ! nat (n - 1)))))) \<and>
   (\<not> isWhole q \<and> (q < 1 \<or> rat_of_nat (length tc) + 1 \<le> q) \<longrightarrow>
      resolveRef tc used q = Inr (None, used)) \<and>
   (\<not> isWhole q \<and> 1 \<le> q \<and> q < rat_of_nat (length tc) + 1 \<longrightarrow>
      resolveRef tc used q = Inl ReferenceTypeError) \<and>
   ((\<forall>r\<in>set (para_references para). isWhole r) \<longrightarrow>
      processParagraph tc para used =
        processParagraph tc
          (para\<lparr>para_references := filter (passesTest tc) (para_references para)\<rparr>) used \<and>
      (\<exists>ms used'.
         mapRefs tc (filter (passesTest tc) (para_references para)) used = Inr (map Some ms, used') \<and>
         length ms = length (filter (passesTest tc) (para_references para)) \<and>
         processParagraph tc para used =
           Inr (para_text para @ (if ms = [] then [] else '' '' @ concat ms), used'))) \<and>
   ((\<exists>r\<in>set (para_references para). passesTest tc r \<and> \<not> isWhole r) \<longrightarrow>
      processParagraph tc para used = Inl ReferenceTypeError) \<and>
   processParagraphs tc (para # paras) used =
     (case processParagraph tc para used of
        Inl e \<Rightarrow> Inl e
      | Inr (t, used1) \<Rightarrow>
          (case processParagraphs tc paras used1 of
             Inl e \<Rightarrow> Inl e
           | Inr (ts, used2) \<Rightarrow> Inr (t # ts, used2))) \<and>
   (truncateContentsToFit enc (basePrompt cfg subject c chapters previousChapter) contents
      (cfg_contextWindow cfg) = Inr budget \<and>
    llm (length (calls st))
      (basePrompt cfg subject c chapters previousChapter @ newline @ newline @ contentsText budget) =
      Some object \<longrightarrow>
      generateChapterContent enc llm cfg subject c chapters contents previousChapter st =
        (case processParagraphs budget (obj_paragraphs object) (usedReferences st) of
           Inl e \<Rightarrow> Inl e
         | Inr (texts, used') \<Rightarrow>
             Inr (\<lparr>res_summary = obj_summary object,
                   res_text = join (newline @ newline) texts\<rparr>,
                  st\<lparr>usedReferences := used',
                     calls := calls st @
                       [\<lparr>call_prompt =
                           basePrompt cfg subject c chapters previousChapter @ newline @ newline @
                           contentsText budget,
                         call_contents = budget, call_object = object\<rparr>]\<rparr>)) \<and>
      ((\<forall>p\<in>set (obj_paragraphs object). \<forall>r\<in>set (para_references p). isWhole r) \<longrightarrow>
         \<not> isl (generateChapterContent enc llm cfg subject c chapters contents previousChapter st)))"
proof -
  let ?rs = "para_references para"
  let ?kept = "filter (passesTest tc) ?rs"
  have fl: "\<lfloor>rat_of_int n - 1\<rfloor> = n - 1"
    by (metis floor_of_int of_int_1 of_int_diff)
  have out: "resolveRef tc used (rat_of_int n) = Inr (None, used)"
    if "n \<le> 0 \<or> int (length tc) < n"
    using that by (intro resolveRef_dropped) (auto simp: passesTest_of_int inRange_def)
  have inside: "resolveRef tc used (rat_of_int n) =
        Inr (Some (marker (snd (citeOrGetIndex used (item_url (tc ! nat (n - 1)))))
                    (item_url (tc ! nat (n - 1)))),
             fst (citeOrGetIndex used (item_url (tc ! nat (n - 1)))))"
    if "0 < n \<and> n \<le> int (length tc)"
    using that resolveRef_whole [of tc "rat_of_int n" used]
    by (simp add: passesTest_of_int inRange_def isWhole_of_int fl)
  have far: "resolveRef tc used q = Inr (None, used)"
    if "\<not> isWhole q \<and> (q < 1 \<or> rat_of_nat (length tc) + 1 \<le> q)"
    using that by (intro resolveRef_dropped) (auto simp: passesTest_def)
  have near: "resolveRef tc used q = Inl ReferenceTypeError"
    if "\<not> isWhole q \<and> 1 \<le> q \<and> q < rat_of_nat (length tc) + 1"
    using that by (intro resolveRef_fraction) (auto simp: passesTest_def)
  have whole: "processParagraph tc para used =
        processParagraph tc (para\<lparr>para_references := ?kept\<rparr>) used \<and>
      (\<exists>ms used'.
         mapRefs tc ?kept used = Inr (map Some ms, used') \<and> length ms = length ?kept \<and>
         processParagraph tc para used =
           Inr (para_text para @ (if ms = [] then [] else '' '' @ concat ms), used'))"
    if w: "\<forall>r\<in>set ?rs. isWhole r"
  proof -
    from mapRefs_filter [OF w, of tc used] obtain ms ms' used' where m:
      "mapRefs tc ?rs used = Inr (ms, used')"
      "mapRefs tc ?kept used = Inr (map Some ms', used')"
      "filterBoolean ms = ms'" "length ms' = length ?kept"
      by blast
    have fb: "filterBoolean (map Some ms') = ms'"
      using m(2) by (rule filterBoolean_markers_only)
    have a: "processParagraph tc para used =
        Inr (para_text para @ (if ms' = [] then [] else '' '' @ concat ms'), used')"
      using m(1) m(3) by (auto simp: processParagraph_def Let_def join_Nil)
    have b: "processParagraph tc (para\<lparr>para_references := ?kept\<rparr>) used =
        Inr (para_text para @ (if ms' = [] then [] else '' '' @ concat ms'), used')"
      using m(2) fb by (auto simp: processParagraph_def Let_def join_Nil)
    show ?thesis
      using a b m(2) m(4) by auto
  qed
  have broken: "processParagraph tc para used = Inl ReferenceTypeError"
    if "\<exists>r\<in>set ?rs. passesTest tc r \<and> \<not> isWhole r"
    using mapRefs_fraction [OF that, of used] by (simp add: processParagraph_def)
  have list: "processParagraphs tc (para # paras) used =
     (case processParagraph tc para used of
        Inl e \<Rightarrow> Inl e
      | Inr (t, used1) \<Rightarrow>
          (case processParagraphs tc paras used1 of
             Inl e \<Rightarrow> Inl e
           | Inr (ts, used2) \<Rightarrow> Inr (t # ts, used2)))"
    by simp
  have call: "generateChapterContent enc llm cfg subject c chapters contents previousChapter st =
        (case processParagraphs budget (obj_paragraphs object) (usedReferences st) of
           Inl e \<Rightarrow> Inl e
         | Inr (texts, used') \<Rightarrow>
             Inr (\<lparr>res_summary = obj_summary object,
                   res_text = join (newline @ newline) texts\<rparr>,
                  st\<lparr>usedReferences := used',
                     calls := calls st @
                       [\<lparr>call_prompt =
                           basePrompt cfg subject c chapters previousChapter @ newline @ newline @
                           contentsText budget,
                         call_contents = budget, call_object = object\<rparr>]\<rparr>)) \<and>
      ((\<forall>p\<in>set (obj_paragraphs object). \<forall>r\<in>set (para_references p). isWhole r) \<longrightarrow>
         \<not> isl (generateChapterContent enc llm cfg subject c chapters contents previousChapter st))"
    if a: "truncateContentsToFit enc (basePrompt cfg subject c chapters previousChapter) contents
        (cfg_contextWindow cfg) = Inr budget \<and>
      llm (length (calls st))
        (basePrompt cfg subject c chapters previousChapter @ newline @ newline @ contentsText budget) =
        Some object"
  proof -
    have eq: "generateChapterContent enc llm cfg subject c chapters contents previousChapter st =
        (case processParagraphs budget (obj_paragraphs object) (usedReferences st) of
           Inl e \<Rightarrow> Inl e
         | Inr (texts, used') \<Rightarrow>
             Inr (\<lparr>res_summary = obj_summary object,
                   res_text = join (newline @ newline) texts\<rparr>,
                  st\<lparr>usedReferences := used',
                     calls := calls st @
                       [\<lparr>call_prompt =
                           basePrompt cfg subject c chapters previousChapter @ newline @ newline @
                           contentsText budget,
                         call_contents = budget, call_object = object\<rparr>]\<rparr>))"
      using a by (simp add: generateChapterContent_def Let_def)
    have "\<not> isl (generateChapterContent enc llm cfg subject c chapters contents previousChapter st)"
      if w: "\<forall>p\<in>set (obj_paragraphs object). \<forall>r\<in>set (para_references p). isWhole r"
    proof -
      from processParagraphs_returns [OF w, of budget "usedReferences st"]
      obtain texts used' where
        "processParagraphs budget (obj_paragraphs object) (usedReferences st) = Inr (texts, used')"
        by (cases "processParagraphs budget (obj_paragraphs object) (usedReferences st)") auto
      then show ?thesis
        using eq by simp
    qed
    then show ?thesis
      using eq by blast
  qed
  show ?thesis
    using out inside far near whole broken list call by blast
qed

lemma half_not_whole: "odd k \<Longrightarrow> \<not> isWhole (rat_of_int k / 2)"
proof
  assume k: "odd k" and "isWhole (rat_of_int k / 2)"
  then have "rat_of_int \<lfloor>rat_of_int k / 2\<rfloor> = rat_of_int k / 2"
    unfolding isWhole_def by simp
  then obtain n where "rat_of_int k / 2 = rat_of_int n"
    by metis
  then have "rat_of_int k = rat_of_int (2 * n)"
    by simp
  then have "k = 2 * n"
    by (simp only: of_int_eq_iff)
  then show False
    using k by simp
qed

lemma fraction_not_whole: "\<not> isWhole (5 / 2)" "\<not> isWhole (7 / 2)"
  using half_not_whole [of 5] half_not_whole [of 7] by simp_all

lemma exampleBudget:
  "truncateContentsToFit charTokens
     (basePrompt exampleConfig ''solar'' \<lparr>ch_number = 1, ch_title = ''Intro''\<rparr>
        [\<lparr>ch_number = 1, ch_title = ''Intro''\<rparr>] [])
     [doc ''u1'' ''x'', doc ''u2'' ''y''] (cfg_contextWindow exampleConfig) =
   Inr [doc ''u1'' ''x'', doc ''u2'' ''y'']"
  by code_simp

theorem out_of_range_references_dropped_witness:
  "resolveRef [doc ''u1'' ''x'', doc ''u2'' ''y''] [''u1''] 5 = Inr (None, [''u1'']) \<and>
   resolveRef [doc ''u1'' ''x'', doc ''u2'' ''y''] [''u1''] 2 =
     Inr (Some ''[(2)](u2)'', [''u1'', ''u2'']) \<and>
   resolveRef [doc ''u1'' ''x'', doc ''u2'' ''y''] [''u1''] (7 / 2) = Inr (None, [''u1'']) \<and>
   resolveRef [doc ''u1'' ''x'', doc ''u2'' ''y''] [''u1''] (5 / 2) = Inl ReferenceTypeError \<and>
   processParagraph [doc ''u1'' ''x'', doc ''u2'' ''y'']
     \<lparr>para_text = ''p'', para_references = [2, 1, 5]\<rparr> [''u1''] =
     Inr (''p [(2)](u2)[(1)](u1)'', [''u1'', ''u2'']) \<and>
   processParagraph [doc ''u1'' ''x'', doc ''u2'' ''y'']
     \<lparr>para_text = ''p'', para_references = [2, 5 / 2]\<rparr> [''u1''] = Inl ReferenceTypeError \<and>
   exampleCall =
     Inr (\<lparr>res_summary = ''s'', res_text = ''p [(2)](u2)[(1)](u1)''\<rparr>,
          exampleLedger\<lparr>usedReferences := [''u1'', ''u2''],
            calls := [\<lparr>call_prompt =
                         basePrompt exampleConfig ''solar'' \<lparr>ch_number = 1, ch_title = ''Intro''\<rparr>
                           [\<lparr>ch_number = 1, ch_title = ''Intro''\<rparr>] [] @ newline @ newline @
                         contentsText [doc ''u1'' ''x'', doc ''u2'' ''y''],
                       call_contents = [doc ''u1'' ''x'', doc ''u2'' ''y''],
                       call_object =
                         \<lparr>obj_summary = ''s'',
                          obj_paragraphs = [\<lparr>para_text = ''p'', para_references = [2, 1, 5]\<rparr>]\<rparr>\<rparr>]\<rparr>)"
proof -
  let ?tc = "[doc ''u1'' ''x'', doc ''u2'' ''y'']"
  let ?para = "\<lparr>para_text = ''p'', para_references = [2, 1, 5]\<rparr>"
  let ?bad = "\<lparr>para_text = ''p'', para_references = [2, 5 / 2]\<rparr>"
  let ?c = "\<lparr>ch_number = 1, ch_title = ''Intro''\<rparr>"
  let ?object = "\<lparr>obj_summary = ''s'', obj_paragraphs = [?para]\<rparr>"
  note t5 = out_of_range_references_dropped [where n = 5 and q = "7 / 2" and tc = ?tc
      and used = "[''u1'']" and para = ?para and paras = "[]"
      and llm = exampleModel and st = exampleLedger and enc = charTokens
      and cfg = exampleConfig and subject = "''solar''" and c = ?c and chapters = "[?c]"
      and contents = ?tc and previousChapter = "[]" and object = ?object and budget = ?tc]
  note t2 = out_of_range_references_dropped [where n = 2 and q = "5 / 2" and tc = ?tc
      and used = "[''u1'']" and para = ?bad and paras = "[]"
      and llm = exampleModel and st = exampleLedger and enc = charTokens
      and cfg = exampleConfig and subject = "''solar''" and c = ?c and chapters = "[?c]"
      and contents = ?tc and previousChapter = "[]" and object = ?object and budget = ?tc]
  have out: "(5::int) \<le> 0 \<or> int (length ?tc) < 5" by simp
  have r1: "resolveRef ?tc [''u1''] 5 = Inr (None, [''u1''])"
    using t5 [THEN conjunct1, rule_format, OF out] by simp
  have inside: "(0::int) < 2 \<and> 2 \<le> int (length ?tc)" by simp
  have e2: "(Some (marker (snd (citeOrGetIndex [''u1''] (item_url (?tc ! nat (2 - 1)))))
                 (item_url (?tc ! nat (2 - 1)))),
         fst (citeOrGetIndex [''u1''] (item_url (?tc ! nat (2 - 1))))) =
      (Some ''[(2)](u2)'', [''u1'', ''u2''])"
    by code_simp
  have r2: "resolveRef ?tc [''u1''] 2 = Inr (Some ''[(2)](u2)'', [''u1'', ''u2''])"
    using t2 [THEN conjunct2, THEN conjunct1, rule_format, OF inside] e2 by simp
  have far: "\<not> isWhole (7 / 2) \<and> ((7 / 2 :: rat) < 1 \<or> rat_of_nat (length ?tc) + 1 \<le> 7 / 2)"
    by (simp add: fraction_not_whole)
  have r3: "resolveRef ?tc [''u1''] (7 / 2) = Inr (None, [''u1''])"
    using t5 [THEN conjunct2, THEN conjunct2, THEN conjunct1, rule_format, OF far] .
  have near: "\<not> isWhole (5 / 2) \<and> (1 :: rat) \<le> 5 / 2 \<and> 5 / 2 < rat_of_nat (length ?tc) + 1"
    by (simp add: fraction_not_whole)
  have r4: "resolveRef ?tc [''u1''] (5 / 2) = Inl ReferenceTypeError"
    using t2 [THEN conjunct2, THEN conjunct2, THEN conjunct2, THEN conjunct1, rule_format, OF near] .
  have whole: "\<forall>r\<in>set (para_references ?para). isWhole r"
    by simp
  have kept: "filter (passesTest ?tc) (para_references ?para) = [2, 1]"
    by (simp add: passesTest_def)
  have e5: "processParagraph ?tc (?para\<lparr>para_references := [2, 1]\<rparr>) [''u1''] =
      Inr (''p [(2)](u2)[(1)](u1)'', [''u1'', ''u2''])"
    by code_simp
  have r5: "processParagraph ?tc ?para [''u1''] = Inr (''p [(2)](u2)[(1)](u1)'', [''u1'', ''u2''])"
    using t5 [THEN conjunct2, THEN conjunct2, THEN conjunct2, THEN conjunct2, THEN conjunct1,
        THEN mp, OF whole, THEN conjunct1] e5 kept by simp
  have bad: "\<exists>r\<in>set (para_references ?bad). passesTest ?tc r \<and> \<not> isWhole r"
    by (simp add: passesTest_def fraction_not_whole)
  have r6: "processParagraph ?tc ?bad [''u1''] = Inl ReferenceTypeError"
    using t2 [THEN conjunct2, THEN conjunct2, THEN conjunct2, THEN conjunct2, THEN conjunct2,
        THEN conjunct1, THEN mp, OF bad] .
  have a: "truncateContentsToFit charTokens (basePrompt exampleConfig ''solar'' ?c [?c] []) ?tc
        (cfg_contextWindow exampleConfig) = Inr ?tc \<and>
      exampleModel (length (calls exampleLedger))
        (basePrompt exampleConfig ''solar'' ?c [?c] [] @ newline @ newline @ contentsText ?tc) =
        Some ?object"
    using exampleBudget by (simp add: exampleModel_def)
  have l: "processParagraphs ?tc [?para] [''u1''] =
      Inr ([''p [(2)](u2)[(1)](u1)''], [''u1'', ''u2''])"
    using t5 [THEN conjunct2, THEN conjunct2, THEN conjunct2, THEN conjunct2, THEN conjunct2,
        THEN conjunct2, THEN conjunct1] r5 by simp
  have u: "usedReferences exampleLedger = [''u1'']" "calls exampleLedger = []"
    by (simp_all add: exampleLedger_def newResearch_def)
  have r7: "exampleCall =
     Inr (\<lparr>res_summary = ''s'', res_text = ''p [(2)](u2)[(1)](u1)''\<rparr>,
          exampleLedger\<lparr>usedReferences := [''u1'', ''u2''],
            calls := [\<lparr>call_prompt =
                         basePrompt exampleConfig ''solar'' ?c [?c] [] @ newline @ newline @
                         contentsText ?tc,
                       call_contents = ?tc, call_object = ?object\<rparr>]\<rparr>)"
    using t5 [THEN conjunct2, THEN conjunct2, THEN conjunct2, THEN conjunct2, THEN conjunct2,
        THEN conjunct2, THEN conjunct2, THEN mp, OF a, THEN conjunct1] l u
    by (simp add: exampleCall_def)
  show ?thesis
    using r1 r2 r3 r4 r5 r6 r7 by blast
qed

text \<open>
  The claim fails for numbers that are not whole. With two documents, the number 2.5 is
  beyond the length of the list, yet it is not dropped: the callback throws, and so does
  the chapter-body call whose answer cites it. And the number 0.5 is above 0 and within
  the length, yet it is dropped.
\<close>

theorem fractional_reference_counterexample:
  "rat_of_nat (length [doc ''u1'' ''x'', doc ''u2'' ''y'']) < 5 / 2 \<and>
   resolveRef [doc ''u1'' ''x'', doc ''u2'' ''y''] [] (5 / 2) = Inl ReferenceTypeError \<and>
   fractionCall = Inl ReferenceTypeError \<and>
   (0 :: rat) < 1 / 2 \<and> 1 / 2 \<le> rat_of_nat (length [doc ''u1'' ''x'', doc ''u2'' ''y'']) \<and>
   resolveRef [doc ''u1'' ''x'', doc ''u2'' ''y''] [] (1 / 2) = Inr (None, [])"
proof -
  let ?tc = "[doc ''u1'' ''x'', doc ''u2'' ''y'']"
  let ?c = "\<lparr>ch_number = 1, ch_title = ''Intro''\<rparr>"
  have a: "rat_of_nat (length ?tc) < 5 / 2"
    by simp
  have b: "resolveRef ?tc [] (5 / 2) = Inl ReferenceTypeError"
    by (rule resolveRef_fraction) (simp_all add: passesTest_def fraction_not_whole)
  have c: "fractionCall = Inl ReferenceTypeError"
    using exampleBudget b
    by (simp add: fractionCall_def generateChapterContent_def fractionModel_def Let_def
        newResearch_def processParagraph_def)
  have d: "(0 :: rat) < 1 / 2" "1 / 2 \<le> rat_of_nat (length ?tc)"
    by simp_all
  have e: "resolveRef ?tc [] (1 / 2) = Inr (None, [])"
    by (rule resolveRef_dropped) (simp add: passesTest_def)
  show ?thesis
    using a b c d e by blast
qed

section \<open>The bibliography\<close>

lemma remdups_later_duplicate: "x \<in> set zs \<Longrightarrow> remdups (ys @ x # zs) = remdups (ys @ zs)"
  by (induction ys) auto

lemma firstUses_distinct: "distinct (firstUses xs)"
  by (simp add: firstUses_def)

lemma firstUses_set: "set (firstUses xs) = set xs"
  by (simp add: firstUses_def)

lemma citeAll_Cons: "citeAll used (x # xs) = citeAll (fst (citeOrGetIndex used x)) xs"
  by (simp add: citeAll_def)

lemma citeAll_append: "citeAll used (xs @ ys) = citeAll (citeAll used xs) ys"
  by (simp add: citeAll_def)

lemma citeAll_firstUses: "distinct used \<Longrightarrow> citeAll used xs = firstUses (used @ xs)"
proof (induction xs arbitrary: used)
  case Nil
  then show ?case by (simp add: citeAll_def firstUses_def distinct_remdups_id)
next
  case (Cons x xs)
  show ?case
  proof (cases "x \<in> set used")
    case True
    have "firstUses (used @ x # xs) = firstUses (used @ xs)"
      using True remdups_later_duplicate [of x "rev used" "rev xs"]
      by (simp add: firstUses_def)
    then show ?thesis
      using True Cons.IH [OF Cons.prems] by (simp add: citeAll_Cons citeOrGetIndex_old)
  next
    case False
    then have "distinct (used @ [x])" using Cons.prems by simp
    from Cons.IH [OF this] show ?thesis
      using False by (simp add: citeAll_Cons citeOrGetIndex_new)
  qed
qed

lemma mapRefs_cites:
  "mapRefs tc rs used = Inr (ms, used') \<Longrightarrow> used' = citeAll used (citedUrls tc rs)"
proof (induction rs arbitrary: used ms)
  case Nil
  then show ?case by (simp add: citeAll_def citedUrls_def)
next
  case (Cons r rs)
  from Cons.prems obtain m used1 rest where
    a: "resolveRef tc used r = Inr (m, used1)" and b: "mapRefs tc rs used1 = Inr (rest, used')"
    by (auto split: sum.splits)
  show ?case
  proof (cases "passesTest tc r")
    case True
    then have "isWhole r"
      using a resolveRef_fraction [of tc r used] by auto
    then have "used1 = fst (citeOrGetIndex used (item_url (tc ! nat \<lfloor>r - 1\<rfloor>)))"
      using a True by (simp add: resolveRef_whole)
    then show ?thesis
      using Cons.IH [OF b] True by (simp add: citedUrls_def citeAll_Cons)
  next
    case False
    then have "used1 = used"
      using a by (simp add: resolveRef_dropped)
    then show ?thesis
      using Cons.IH [OF b] False by (simp add: citedUrls_def)
  qed
qed

lemma processParagraphs_cites:
  "processParagraphs tc ps used = Inr (ts, used') \<Longrightarrow>
   used' = citeAll used (concat (map (\<lambda>p. citedUrls tc (para_references p)) ps))"
proof (induction ps arbitrary: used ts)
  case Nil
  then show ?case by (simp add: citeAll_def)
next
  case (Cons p ps)
  from Cons.prems obtain t used1 rest where
    a: "processParagraph tc p used = Inr (t, used1)"
    and b: "processParagraphs tc ps used1 = Inr (rest, used')"
    by (auto split: sum.splits)
  from a obtain ms where "mapRefs tc (para_references p) used = Inr (ms, used1)"
    by (auto simp: processParagraph_def Let_def split: sum.splits)
  then have "used1 = citeAll used (citedUrls tc (para_references p))"
    by (rule mapRefs_cites)
  then show ?case
    using Cons.IH [OF b] by (simp add: citeAll_append)
qed

lemma truncateLoop_subset:
  "truncateLoop enc W cs acc n = Inr sel \<Longrightarrow> set sel \<subseteq> set acc \<union> set cs"
proof (induction cs arbitrary: acc n)
  case Nil
  then show ?case by simp
next
  case (Cons c cs)
  from Cons.prems show ?case
    by (auto split: sum.splits if_splits dest!: Cons.IH)
qed

lemma truncateContentsToFit_subset:
  "truncateContentsToFit enc t ds W = Inr sel \<Longrightarrow> set sel \<subseteq> set ds"
  by (auto simp: truncateContentsToFit_def Let_def split: sum.splits if_splits
      dest!: truncateLoop_subset)

lemma generateChapterContent_cites:
  assumes "generateChapterContent enc llm cfg subject c chapters contents previousChapter st = Inr (res, st')"
  shows "\<exists>call. calls st' = calls st @ [call] \<and>
           usedReferences st' = citeAll (usedReferences st) (callCitations call) \<and>
           references st' = references st \<and> set (call_contents call) \<subseteq> set contents"
  using assms
proof (rule generateChapterContent_Inr)
  fix tc object texts used'
  assume t: "truncateContentsToFit enc (basePrompt cfg subject c chapters previousChapter) contents
       (cfg_contextWindow cfg) = Inr tc"
    and p: "processParagraphs tc (obj_paragraphs object) (usedReferences st) = Inr (texts, used')"
    and s: "st' = st\<lparr>usedReferences := used',
              calls := calls st @
                [\<lparr>call_prompt =
                    basePrompt cfg subject c chapters previousChapter @ newline @ newline @
                    contentsText tc,
                  call_contents = tc, call_object = object\<rparr>]\<rparr>"
  show ?thesis
    using s processParagraphs_cites [OF p] truncateContentsToFit_subset [OF t]
    by (simp add: callCitations_def)
qed

lemma chapterLoop_cites:
  "chapterLoop enc llm cfg subject chapters contents rest (pt, ccs, st) = Inr (pt', ccs', st')
   \<Longrightarrow> \<exists>new. calls st' = calls st @ new \<and> length new = length rest \<and>
           usedReferences st' = citeAll (usedReferences st) (runCitations new) \<and>
           references st' = references st \<and>
           (\<forall>call\<in>set new. set (call_contents call) \<subseteq> set contents)"
proof (induction rest arbitrary: pt ccs st)
  case Nil
  then show ?case by (simp add: runCitations_def citeAll_def)
next
  case (Cons c rest)
  from Cons.prems show ?case
  proof (rule chapterLoop_Cons_Inr)
    fix content st1
    assume g: "generateChapterContent enc llm cfg subject c chapters contents pt st = Inr (content, st1)"
      and l: "chapterLoop enc llm cfg subject chapters contents rest
       (pt @ res_text content,
        ccs @ [\<lparr>cc_number = ch_number c, cc_title = ch_title c,
                 cc_content = res_text content, cc_summary = res_summary content\<rparr>],
        st1) = Inr (pt', ccs', st')"
    from generateChapterContent_cites [OF g] obtain call where call:
      "calls st1 = calls st @ [call]"
      "usedReferences st1 = citeAll (usedReferences st) (callCitations call)"
      "references st1 = references st" "set (call_contents call) \<subseteq> set contents"
      by blast
    from Cons.IH [OF l] obtain new where new:
      "calls st' = calls st1 @ new" "length new = length rest"
      "usedReferences st' = citeAll (usedReferences st1) (runCitations new)"
      "references st' = references st1"
      "\<forall>call\<in>set new. set (call_contents call) \<subseteq> set contents"
      by blast
    show ?thesis
      using call new
      by (intro exI [of _ "call # new"]) (simp add: runCitations_def citeAll_append)
  qed
qed

text \<open>Every cited URL is the URL of a document of the budgeted list.\<close>

lemma citedUrls_subset: "set (citedUrls tc rs) \<subseteq> item_url ` set tc"
proof
  fix u
  assume "u \<in> set (citedUrls tc rs)"
  then obtain r where r: "passesTest tc r" and u: "u = item_url (tc ! nat \<lfloor>r - 1\<rfloor>)"
    by (auto simp: citedUrls_def)
  have lo: "0 \<le> r - 1" and hi: "r - 1 < rat_of_int (int (length tc))"
    using r by (simp_all add: passesTest_def)
  have "rat_of_int \<lfloor>r - 1\<rfloor> \<le> r - 1"
    by (rule of_int_floor_le)
  then have "rat_of_int \<lfloor>r - 1\<rfloor> < rat_of_int (int (length tc))"
    using hi by linarith
  then have "\<lfloor>r - 1\<rfloor> < int (length tc)"
    by (simp only: of_int_less_iff)
  moreover have "0 \<le> \<lfloor>r - 1\<rfloor>"
    using lo by (simp only: zero_le_floor)
  ultimately have "nat \<lfloor>r - 1\<rfloor> < length tc"
    by linarith
  then show "u \<in> item_url ` set tc"
    using u by simp
qed

lemma citeAll_set: "set (citeAll used xs) = set used \<union> set xs"
proof (induction xs arbitrary: used)
  case Nil
  then show ?case by (simp add: citeAll_def)
next
  case (Cons x xs)
  show ?case
    using Cons.IH [of "fst (citeOrGetIndex used x)"]
    by (auto simp: citeAll_Cons citeOrGetIndex_def Let_def split: if_splits)
qed

lemma runCitations_subset:
  "\<forall>call\<in>set new. set (call_contents call) \<subseteq> set contents \<Longrightarrow>
   set (runCitations new) \<subseteq> item_url ` set contents"
proof
  fix u
  assume sub: "\<forall>call\<in>set new. set (call_contents call) \<subseteq> set contents"
    and "u \<in> set (runCitations new)"
  then have "\<exists>call\<in>set new. \<exists>p::bodyParagraph. u \<in> set (citedUrls (call_contents call) (para_references p))"
    by (auto simp: runCitations_def callCitations_def)
  then obtain call and p :: bodyParagraph where c: "call \<in> set new"
    and u: "u \<in> set (citedUrls (call_contents call) (para_references p))"
    by blast
  then have "u \<in> item_url ` set (call_contents call)"
    using citedUrls_subset by blast
  then show "u \<in> item_url ` set contents"
    using sub c by blast
qed

text \<open>The crawl stage when no URL of the batch has a record.\<close>

lemma lookupLoop_misses:
  "\<forall>u\<in>set urls. disk st (cachePath md5 u) = None \<Longrightarrow>
   lookupLoop md5 urls (st, queued) = Inr (st, queued @ urls)"
  by (induction urls arbitrary: queued) (simp_all add: lookupUrl_def)

lemma objSet_entries: "set (objSet xs k v) \<subseteq> set xs \<union> {(k, v)}"
  by (induction xs) (auto split: if_splits)

lemma storeLoop_own_url:
  "storeLoop md5 wfail items st = Inr st' \<Longrightarrow>
   \<forall>(k, it)\<in>set (cache st). k = item_url it \<and> references st k \<noteq> None \<Longrightarrow>
   \<forall>(k, it)\<in>set (cache st'). k = item_url it \<and> references st' k \<noteq> None"
proof (induction items arbitrary: st)
  case Nil
  then show ?case by simp
next
  case (Cons it items)
  from Cons.prems(1) obtain st1 where
    a: "storeItem md5 wfail it st = Inr st1" and b: "storeLoop md5 wfail items st1 = Inr st'"
    by (auto split: sum.splits)
  from a have c: "cache st1 = objSet (cache st) (item_url it) it"
    and r: "references st1 =
      (references st)(item_url it \<mapsto>
        \<lparr>ref_title = titleOr (item_title it) (item_url it), ref_url = item_url it\<rparr>)"
    by (auto simp: storeItem_def remember_def Let_def split: if_splits)
  have "k = item_url i \<and> references st1 k \<noteq> None" if "(k, i) \<in> set (cache st1)" for k i
  proof -
    from that have "(k, i) \<in> set (cache st) \<or> (k, i) = (item_url it, it)"
      using objSet_entries [of "cache st" "item_url it" it] unfolding c by auto
    then show ?thesis
    proof
      assume "(k, i) \<in> set (cache st)"
      then have "k = item_url i \<and> references st k \<noteq> None"
        using Cons.prems(2) by auto
      then show ?thesis
        unfolding r by auto
    next
      assume "(k, i) = (item_url it, it)"
      then show ?thesis
        unfolding r by simp
    qed
  qed
  then have "\<forall>(k, i)\<in>set (cache st1). k = item_url i \<and> references st1 k \<noteq> None"
    by auto
  with b show ?case
    by (rule Cons.IH)
qed

lemma crawlUrls_own_url:
  assumes "crawlUrls md5 crawler wfail urls st = Inr (contents, st')"
    and "cache st = []" and "\<forall>u\<in>set urls. disk st (cachePath md5 u) = None"
  shows "\<forall>it\<in>set contents. references st' (item_url it) \<noteq> None"
proof (cases "urls = []")
  case True
  then show ?thesis
    using assms by (auto simp: crawlUrls_def objValues_def)
next
  case False
  from assms(1) obtain items where s: "storeLoop md5 wfail items st = Inr st'"
    and c: "contents = objValues (cache st')"
    using False lookupLoop_misses [OF assms(3), of "[]"]
    by (auto simp: crawlUrls_def split: option.splits sum.splits)
  have "\<forall>(k, it)\<in>set (cache st'). k = item_url it \<and> references st' k \<noteq> None"
    using s by (rule storeLoop_own_url) (simp add: assms(2))
  then show ?thesis
    unfolding c objValues_def by auto
qed

lemma referenceLines_all:
  "\<forall>u\<in>set urls. refs u \<noteq> None \<Longrightarrow>
   referenceLines refs k urls =
     Inr (map (\<lambda>(i, u). ''- '' @ marker (int i + 1) u @ '' '' @ ref_title (the (refs u)))
            (enumerate k urls))"
  by (induction urls arbitrary: k) auto

lemma referenceLines_missing:
  "\<exists>u\<in>set urls. refs u = None \<Longrightarrow> referenceLines refs k urls = Inl MissingReference"
proof (induction urls arbitrary: k)
  case Nil
  then show ?case by simp
next
  case (Cons u urls)
  show ?case
  proof (cases "refs u")
    case None
    then show ?thesis by simp
  next
    case (Some r)
    then have "\<exists>u\<in>set urls. refs u = None"
      using Cons.prems by auto
    then show ?thesis
      using Cons.IH [of "k + 1"] Some by simp
  qed
qed

lemma join_snoc: "xs \<noteq> [] \<Longrightarrow> join sep (xs @ [y]) = join sep xs @ sep @ y"
proof (induction xs)
  case Nil
  then show ?case by simp
next
  case (Cons x xs)
  then show ?case by (cases xs) simp_all
qed

lemma indexOf_distinct_nth: "distinct xs \<Longrightarrow> i < length xs \<Longrightarrow> indexOf xs (xs ! i) = int i"
proof (induction xs arbitrary: i)
  case Nil
  then show ?case by simp
next
  case (Cons x xs)
  show ?case
  proof (cases i)
    case 0
    then show ?thesis by simp
  next
    case (Suc j)
    then have "xs ! j \<noteq> x" "indexOf xs (xs ! j) = int j"
      using Cons.prems Cons.IH [of j] by auto
    then show ?thesis
      using Suc by (simp add: Let_def)
  qed
qed

lemma numberToString_1: "numberToString 1 = ''1''"
  by code_simp

lemma numberToString_2: "numberToString 2 = ''2''"
  by code_simp

text \<open>
  C4, as amended. After a chapter loop that started with an empty ledger and no earlier
  call, the ledger is the sequence of URLs cited by the calls of the run, each at its
  first use. The document is assembled exactly when every URL of the ledger has an entry
  in the reference map and the directory and the two files can be written: then its text
  is the parts before the bibliography followed by one line per URL of the ledger, in
  ledger order, numbered from 1, with the URL and the stored title, and the number of a
  line is the citation index the ledger gives its URL. A URL of the ledger without an
  entry makes the assembly throw, and so does a write that fails. Every URL of the ledger
  has an entry when every document of the corpus is remembered under its own URL, which
  is what the crawl stage leaves when no URL of the batch had a record. In the scenario,
  the first chapter cites local number 1 and the second local numbers 1 and 2 of a list
  that starts with two documents of different URLs: the ledger ends as the two URLs in
  that order, the second chapter's marker for the second document carries 2, and the
  bibliography is the two lines numbered 1 and 2.
\<close>

theorem bibliography_first_use_order:
  "(generateChapters enc llm cfg subject chapters contents st = Inr (pt, ccs, st') \<and>
      usedReferences st = [] \<and> calls st = [] \<longrightarrow>
      usedReferences st' = firstUses (runCitations (calls st')) \<and>
      distinct (usedReferences st') \<and> references st' = references st) \<and>
   (generateChapters enc llm cfg subject chapters contents st = Inr (pt, ccs, st') \<and>
      usedReferences st = [] \<and> (\<forall>it\<in>set contents. references st (item_url it) \<noteq> None) \<longrightarrow>
      (\<forall>u\<in>set (usedReferences st'). references st' u \<noteq> None)) \<and>
   (crawlUrls md5 crawler cfail urls initial = Inr (contents, st) \<and> cache initial = [] \<and>
      (\<forall>u\<in>set urls. disk initial (cachePath md5 u) = None) \<longrightarrow>
      (\<forall>it\<in>set contents. references st (item_url it) \<noteq> None)) \<and>
   ((\<forall>u\<in>set (usedReferences st). references st u \<noteq> None) \<and> \<not> wfail ''reports'' \<and>
    \<not> wfail (pathJoin ''reports'' (slug subject @ ''.md'')) \<and>
    \<not> wfail (pathJoin ''reports'' (slug subject @ ''.html'')) \<longrightarrow>
      generateDocument pathJoin wfail today subject abstract ccs conclusions st =
        Inr \<lparr>doc_content =
               join newline (contentParts today subject abstract ccs conclusions) @ newline @
               join newline
                 (map (\<lambda>(i, u). ''- '' @ marker (int i + 1) u @ '' '' @ ref_title (the (references st u)))
                    (enumerate 0 (usedReferences st))),
             doc_markdown = pathJoin ''reports'' (slug subject @ ''.md''),
             doc_html = pathJoin ''reports'' (slug subject @ ''.html'')\<rparr>) \<and>
   ((\<exists>u\<in>set (usedReferences st). references st u = None) \<and> \<not> wfail ''reports'' \<longrightarrow>
      generateDocument pathJoin wfail today subject abstract ccs conclusions st =
        Inl MissingReference) \<and>
   (wfail ''reports'' \<or>
    (\<forall>u\<in>set (usedReferences st). references st u \<noteq> None) \<and>
    (wfail (pathJoin ''reports'' (slug subject @ ''.md'')) \<or>
     wfail (pathJoin ''reports'' (slug subject @ ''.html''))) \<longrightarrow>
      generateDocument pathJoin wfail today subject abstract ccs conclusions st =
        Inl ReportWriteError) \<and>
   (distinct (usedReferences st) \<and> i < length (usedReferences st) \<longrightarrow>
      citeOrGetIndex (usedReferences st) (usedReferences st ! i) = (usedReferences st, int i + 1)) \<and>
   (item_url d1 \<noteq> item_url d2 \<longrightarrow>
      processParagraphs (d1 # d2 # others) [\<lparr>para_text = t1, para_references = [1]\<rparr>] [] =
        Inr ([t1 @ '' [(1)]('' @ item_url d1 @ '')''], [item_url d1]) \<and>
      processParagraphs (d1 # d2 # others) [\<lparr>para_text = t2, para_references = [1, 2]\<rparr>] [item_url d1] =
        Inr ([t2 @ '' [(1)]('' @ item_url d1 @ '')[(2)]('' @ item_url d2 @ '')''],
             [item_url d1, item_url d2]) \<and>
      (usedReferences st = [item_url d1, item_url d2] \<and>
       references st (item_url d1) = Some r1 \<and> references st (item_url d2) = Some r2 \<longrightarrow>
         orderedReferences st =
           Inr (''- [(1)]('' @ item_url d1 @ '') '' @ ref_title r1 @ newline @
                ''- [(2)]('' @ item_url d2 @ '') '' @ ref_title r2)))"
proof -
  let ?md = "pathJoin ''reports'' (slug subject @ ''.md'')"
  let ?html = "pathJoin ''reports'' (slug subject @ ''.html'')"
  let ?lines = "map (\<lambda>(i, u). ''- '' @ marker (int i + 1) u @ '' '' @ ref_title (the (references st u)))
                    (enumerate 0 (usedReferences st))"
  have run: "usedReferences st' = firstUses (runCitations (calls st')) \<and>
      distinct (usedReferences st') \<and> references st' = references st"
    if "generateChapters enc llm cfg subject chapters contents st = Inr (pt, ccs, st') \<and>
      usedReferences st = [] \<and> calls st = []"
  proof -
    from that chapterLoop_cites [of enc llm cfg subject chapters contents chapters "[]" "[]" st pt ccs st']
    obtain new where "calls st' = new"
      "usedReferences st' = citeAll [] (runCitations new)" "references st' = references st"
      by (auto simp: generateChapters_def)
    then show ?thesis
      by (simp add: citeAll_firstUses firstUses_distinct)
  qed
  have cover: "\<forall>u\<in>set (usedReferences st'). references st' u \<noteq> None"
    if a: "generateChapters enc llm cfg subject chapters contents st = Inr (pt, ccs, st') \<and>
      usedReferences st = [] \<and> (\<forall>it\<in>set contents. references st (item_url it) \<noteq> None)"
  proof -
    from a chapterLoop_cites [of enc llm cfg subject chapters contents chapters "[]" "[]" st pt ccs st']
    obtain new where new: "usedReferences st' = citeAll [] (runCitations new)"
      "references st' = references st"
      "\<forall>call\<in>set new. set (call_contents call) \<subseteq> set contents"
      by (auto simp: generateChapters_def)
    have "set (usedReferences st') \<subseteq> item_url ` set contents"
      using runCitations_subset [OF new(3)] by (simp add: new(1) citeAll_set)
    then show ?thesis
      using a new(2) by auto
  qed
  have crawl: "\<forall>it\<in>set contents. references st (item_url it) \<noteq> None"
    if "crawlUrls md5 crawler cfail urls initial = Inr (contents, st) \<and> cache initial = [] \<and>
      (\<forall>u\<in>set urls. disk initial (cachePath md5 u) = None)"
    using that crawlUrls_own_url [of md5 crawler cfail urls initial contents st] by blast
  have parts: "contentParts today subject abstract ccs conclusions \<noteq> []"
    by (simp add: contentParts_def)
  have bib: "generateDocument pathJoin wfail today subject abstract ccs conclusions st =
        Inr \<lparr>doc_content =
               join newline (contentParts today subject abstract ccs conclusions) @ newline @
               join newline ?lines,
             doc_markdown = ?md, doc_html = ?html\<rparr>"
    if "(\<forall>u\<in>set (usedReferences st). references st u \<noteq> None) \<and> \<not> wfail ''reports'' \<and>
      \<not> wfail ?md \<and> \<not> wfail ?html"
  proof -
    from that have "referenceLines (references st) 0 (usedReferences st) = Inr ?lines"
      using referenceLines_all [of "usedReferences st" "references st" 0] by blast
    then show ?thesis
      using that parts by (simp add: generateDocument_def orderedReferences_def join_snoc Let_def)
  qed
  have missing: "generateDocument pathJoin wfail today subject abstract ccs conclusions st =
        Inl MissingReference"
    if "(\<exists>u\<in>set (usedReferences st). references st u = None) \<and> \<not> wfail ''reports''"
  proof -
    from that have "referenceLines (references st) 0 (usedReferences st) = Inl MissingReference"
      using referenceLines_missing [of "usedReferences st" "references st" 0] by blast
    then show ?thesis
      using that by (simp add: generateDocument_def orderedReferences_def)
  qed
  have unwritable: "generateDocument pathJoin wfail today subject abstract ccs conclusions st =
        Inl ReportWriteError"
    if w: "wfail ''reports'' \<or>
      (\<forall>u\<in>set (usedReferences st). references st u \<noteq> None) \<and> (wfail ?md \<or> wfail ?html)"
  proof (cases "wfail ''reports''")
    case True
    then show ?thesis
      by (simp add: generateDocument_def)
  next
    case False
    then have k: "\<forall>u\<in>set (usedReferences st). references st u \<noteq> None" and f: "wfail ?md \<or> wfail ?html"
      using w by blast+
    have "referenceLines (references st) 0 (usedReferences st) = Inr ?lines"
      using k referenceLines_all [of "usedReferences st" "references st" 0] by blast
    then show ?thesis
      using False f by (auto simp: generateDocument_def orderedReferences_def Let_def)
  qed
  have idx: "citeOrGetIndex (usedReferences st) (usedReferences st ! i) = (usedReferences st, int i + 1)"
    if "distinct (usedReferences st) \<and> i < length (usedReferences st)"
    using that by (simp add: citeOrGetIndex_old indexOf_distinct_nth)
  have scen: "processParagraphs (d1 # d2 # others) [\<lparr>para_text = t1, para_references = [1]\<rparr>] [] =
        Inr ([t1 @ '' [(1)]('' @ item_url d1 @ '')''], [item_url d1]) \<and>
      processParagraphs (d1 # d2 # others) [\<lparr>para_text = t2, para_references = [1, 2]\<rparr>] [item_url d1] =
        Inr ([t2 @ '' [(1)]('' @ item_url d1 @ '')[(2)]('' @ item_url d2 @ '')''],
             [item_url d1, item_url d2]) \<and>
      (usedReferences st = [item_url d1, item_url d2] \<and>
       references st (item_url d1) = Some r1 \<and> references st (item_url d2) = Some r2 \<longrightarrow>
         orderedReferences st =
           Inr (''- [(1)]('' @ item_url d1 @ '') '' @ ref_title r1 @ newline @
                ''- [(2)]('' @ item_url d2 @ '') '' @ ref_title r2))"
    if ne: "item_url d1 \<noteq> item_url d2"
  proof -
    have one: "resolveRef (d1 # d2 # others) used 1 =
        Inr (Some (marker (snd (citeOrGetIndex used (item_url d1))) (item_url d1)),
             fst (citeOrGetIndex used (item_url d1)))" for used
      using resolveRef_whole [of "d1 # d2 # others" 1 used] by (simp add: passesTest_def)
    have two: "resolveRef (d1 # d2 # others) used 2 =
        Inr (Some (marker (snd (citeOrGetIndex used (item_url d2))) (item_url d2)),
             fst (citeOrGetIndex used (item_url d2)))" for used
      using resolveRef_whole [of "d1 # d2 # others" 2 used] by (simp add: passesTest_def)
    show ?thesis
      using ne
      by (simp add: processParagraph_def one two citeOrGetIndex_def filterBoolean_def
          marker_def Let_def numberToString_1 numberToString_2 orderedReferences_def)
  qed
  show ?thesis
    using run cover crawl bib missing unwritable idx scen by blast
qed

lemma scenarioModel_answers:
  "\<forall>n p. \<exists>object. scenarioModel n p = Some object \<and>
     (\<forall>para\<in>set (obj_paragraphs object). \<forall>r\<in>set (para_references para). isWhole r)"
  by (simp add: scenarioModel_def)

lemma scenarioRun_returns:
  "generateChapters charTokens scenarioModel exampleConfig ''solar panel recycling''
     scenarioOutline [scenarioDoc1, scenarioDoc2] scenarioStart =
   Inr (fst (projr scenarioRun), fst (snd (projr scenarioRun)), snd (snd (projr scenarioRun)))"
proof -
  have "\<not> isl scenarioRun"
    unfolding scenarioRun_def generateChapters_def
    using charTokens_accepts scenarioModel_answers by (rule chapterLoop_answers)
  then show ?thesis
    by (simp add: scenarioRun_def)
qed

lemma scenarioRun_ledger:
  "usedReferences (snd (snd (projr scenarioRun))) = [''http://a.example/1'', ''http://b.example/2'']"
  by code_simp

lemma scenarioCrawl_returns:
  "crawlUrls plainDigest scenarioCrawler neverFails [''http://a.example/1'', ''http://b.example/2'']
     (newResearch Map.empty) =
   Inr ([scenarioDoc1, scenarioDoc2], snd (projr scenarioCrawl))"
proof -
  have "\<not> isl scenarioCrawl"
    by code_simp
  moreover have "fst (projr scenarioCrawl) = [scenarioDoc1, scenarioDoc2]"
    by code_simp
  ultimately show ?thesis
    unfolding scenarioCrawl_def
    by (cases "crawlUrls plainDigest scenarioCrawler neverFails
        [''http://a.example/1'', ''http://b.example/2''] (newResearch Map.empty)") auto
qed

theorem bibliography_first_use_order_witness:
  "usedReferences (snd (snd (projr scenarioRun))) =
     firstUses (runCitations (calls (snd (snd (projr scenarioRun))))) \<and>
   usedReferences (snd (snd (projr scenarioRun))) = [''http://a.example/1'', ''http://b.example/2''] \<and>
   references (snd (snd (projr scenarioRun))) ''http://a.example/1'' \<noteq> None \<and>
   references (snd (snd (projr scenarioRun))) ''http://b.example/2'' \<noteq> None \<and>
   references (snd (projr scenarioCrawl)) ''http://b.example/2'' \<noteq> None \<and>
   generateDocument slashJoin neverFails ''2026-01-01'' ''solar panel recycling'' ''abstract''
       (fst (snd (projr scenarioRun))) ''conclusions'' (snd (snd (projr scenarioRun))) =
     Inr \<lparr>doc_content =
            join newline
              (contentParts ''2026-01-01'' ''solar panel recycling'' ''abstract''
                 (fst (snd (projr scenarioRun))) ''conclusions'') @ newline @
            ''- [(1)](http://a.example/1) First'' @ newline @ ''- [(2)](http://b.example/2) Second'',
          doc_markdown = ''reports/solar_panel_recycling.md'',
          doc_html = ''reports/solar_panel_recycling.html''\<rparr> \<and>
   generateDocument slashJoin neverFails ''2026-01-01'' ''solar panel recycling'' ''abstract''
       (fst (snd (projr scenarioRun))) ''conclusions'' exampleLedger = Inl MissingReference \<and>
   generateDocument slashJoin flatReports ''2026-01-01'' ''AC/DC'' ''abstract''
       (fst (snd (projr scenarioRun))) ''conclusions'' (newResearch Map.empty) = Inl ReportWriteError \<and>
   citeOrGetIndex [''http://a.example/1'', ''http://b.example/2''] ''http://b.example/2'' =
     ([''http://a.example/1'', ''http://b.example/2''], 2) \<and>
   processParagraphs [scenarioDoc1, scenarioDoc2] [\<lparr>para_text = ''Two.'', para_references = [1, 2]\<rparr>]
       [''http://a.example/1''] =
     Inr ([''Two. [(1)](http://a.example/1)[(2)](http://b.example/2)''],
          [''http://a.example/1'', ''http://b.example/2''])"
proof -
  let ?F = "snd (snd (projr scenarioRun))"
  let ?ccs = "fst (snd (projr scenarioRun))"
  let ?C = "snd (projr scenarioCrawl)"
  let ?r1 = "\<lparr>ref_title = ''First'', ref_url = ''http://a.example/1''\<rparr>"
  let ?r2 = "\<lparr>ref_title = ''Second'', ref_url = ''http://b.example/2''\<rparr>"
  note run = bibliography_first_use_order [where enc = charTokens and llm = scenarioModel
      and cfg = exampleConfig and chapters = scenarioOutline and pt = "fst (projr scenarioRun)"
      and ccs = ?ccs and ?md5.0 = plainDigest and crawler = scenarioCrawler
      and cfail = neverFails and urls = "[''http://a.example/1'', ''http://b.example/2'']"
      and pathJoin = slashJoin and today = "''2026-01-01''" and abstract = "''abstract''"
      and conclusions = "''conclusions''" and i = 1 and ?d1.0 = scenarioDoc1
      and ?d2.0 = scenarioDoc2 and ?t1.0 = "''One.''" and ?t2.0 = "''Two.''" and ?r1.0 = ?r1
      and ?r2.0 = ?r2 and others = "[]" and contents = "[scenarioDoc1, scenarioDoc2]"
      and initial = "newResearch Map.empty" and subject = "''solar panel recycling''"
      and st = scenarioStart and st' = ?F and wfail = neverFails]
  note crawl = bibliography_first_use_order [where enc = charTokens and llm = scenarioModel
      and cfg = exampleConfig and chapters = scenarioOutline and pt = "fst (projr scenarioRun)"
      and ccs = ?ccs and ?md5.0 = plainDigest and crawler = scenarioCrawler
      and cfail = neverFails and urls = "[''http://a.example/1'', ''http://b.example/2'']"
      and pathJoin = slashJoin and today = "''2026-01-01''" and abstract = "''abstract''"
      and conclusions = "''conclusions''" and i = 1 and ?d1.0 = scenarioDoc1
      and ?d2.0 = scenarioDoc2 and ?t1.0 = "''One.''" and ?t2.0 = "''Two.''" and ?r1.0 = ?r1
      and ?r2.0 = ?r2 and others = "[]" and contents = "[scenarioDoc1, scenarioDoc2]"
      and initial = "newResearch Map.empty" and subject = "''solar panel recycling''" and st = ?C
      and st' = ?F and wfail = neverFails]
  note fin = bibliography_first_use_order [where enc = charTokens and llm = scenarioModel
      and cfg = exampleConfig and chapters = scenarioOutline and pt = "fst (projr scenarioRun)"
      and ccs = ?ccs and ?md5.0 = plainDigest and crawler = scenarioCrawler
      and cfail = neverFails and urls = "[''http://a.example/1'', ''http://b.example/2'']"
      and pathJoin = slashJoin and today = "''2026-01-01''" and abstract = "''abstract''"
      and conclusions = "''conclusions''" and i = 1 and ?d1.0 = scenarioDoc1
      and ?d2.0 = scenarioDoc2 and ?t1.0 = "''One.''" and ?t2.0 = "''Two.''" and ?r1.0 = ?r1
      and ?r2.0 = ?r2 and others = "[]" and contents = "[scenarioDoc1, scenarioDoc2]"
      and initial = "newResearch Map.empty" and subject = "''solar panel recycling''" and st = ?F
      and st' = ?F and wfail = neverFails]
  note miss = bibliography_first_use_order [where enc = charTokens and llm = scenarioModel
      and cfg = exampleConfig and chapters = scenarioOutline and pt = "fst (projr scenarioRun)"
      and ccs = ?ccs and ?md5.0 = plainDigest and crawler = scenarioCrawler
      and cfail = neverFails and urls = "[''http://a.example/1'', ''http://b.example/2'']"
      and pathJoin = slashJoin and today = "''2026-01-01''" and abstract = "''abstract''"
      and conclusions = "''conclusions''" and i = 1 and ?d1.0 = scenarioDoc1
      and ?d2.0 = scenarioDoc2 and ?t1.0 = "''One.''" and ?t2.0 = "''Two.''" and ?r1.0 = ?r1
      and ?r2.0 = ?r2 and others = "[]" and contents = "[scenarioDoc1, scenarioDoc2]"
      and initial = "newResearch Map.empty" and subject = "''solar panel recycling''"
      and st = exampleLedger and st' = ?F and wfail = neverFails]
  note wr = bibliography_first_use_order [where enc = charTokens and llm = scenarioModel
      and cfg = exampleConfig and chapters = scenarioOutline and pt = "fst (projr scenarioRun)"
      and ccs = ?ccs and ?md5.0 = plainDigest and crawler = scenarioCrawler
      and cfail = neverFails and urls = "[''http://a.example/1'', ''http://b.example/2'']"
      and pathJoin = slashJoin and today = "''2026-01-01''" and abstract = "''abstract''"
      and conclusions = "''conclusions''" and i = 1 and ?d1.0 = scenarioDoc1
      and ?d2.0 = scenarioDoc2 and ?t1.0 = "''One.''" and ?t2.0 = "''Two.''" and ?r1.0 = ?r1
      and ?r2.0 = ?r2 and others = "[]" and contents = "[scenarioDoc1, scenarioDoc2]"
      and initial = "newResearch Map.empty" and subject = "''AC/DC''"
      and st = "newResearch Map.empty" and st' = ?F and wfail = flatReports]
  have start: "usedReferences scenarioStart = []" "calls scenarioStart = []"
    by (simp_all add: scenarioStart_def remember_def newResearch_def)
  have w1: "usedReferences ?F = firstUses (runCitations (calls ?F)) \<and>
      distinct (usedReferences ?F) \<and> references ?F = references scenarioStart"
    using run [THEN conjunct1, rule_format] scenarioRun_returns start by blast
  have refs: "references ?F = references scenarioStart"
    using w1 by blast
  have corpus: "\<forall>it\<in>set [scenarioDoc1, scenarioDoc2]. references scenarioStart (item_url it) \<noteq> None"
    by (simp add: scenarioStart_def remember_def scenarioDoc1_def scenarioDoc2_def)
  have hb: "generateChapters charTokens scenarioModel exampleConfig ''solar panel recycling''
        scenarioOutline [scenarioDoc1, scenarioDoc2] scenarioStart =
        Inr (fst (projr scenarioRun), ?ccs, ?F) \<and>
      usedReferences scenarioStart = [] \<and>
      (\<forall>it\<in>set [scenarioDoc1, scenarioDoc2]. references scenarioStart (item_url it) \<noteq> None)"
    using scenarioRun_returns start(1) corpus by blast
  have known: "\<forall>u\<in>set (usedReferences ?F). references ?F u \<noteq> None"
    using run [THEN conjunct2, THEN conjunct1, THEN mp, OF hb] .
  have hc: "crawlUrls plainDigest scenarioCrawler neverFails
        [''http://a.example/1'', ''http://b.example/2''] (newResearch Map.empty) =
        Inr ([scenarioDoc1, scenarioDoc2], ?C) \<and>
      cache (newResearch Map.empty) = [] \<and>
      (\<forall>u\<in>set [''http://a.example/1'', ''http://b.example/2''].
         disk (newResearch Map.empty) (cachePath plainDigest u) = None)"
    using scenarioCrawl_returns by (simp add: newResearch_def)
  have "\<forall>it\<in>set [scenarioDoc1, scenarioDoc2]. references ?C (item_url it) \<noteq> None"
    using crawl [THEN conjunct2, THEN conjunct2, THEN conjunct1, THEN mp, OF hc] .
  then have w2: "references ?C ''http://b.example/2'' \<noteq> None"
    by (simp add: scenarioDoc2_def)
  have lines: "join newline
      (map (\<lambda>(i, u). ''- '' @ marker (int i + 1) u @ '' '' @ ref_title (the (references ?F u)))
         (enumerate 0 (usedReferences ?F))) =
      ''- [(1)](http://a.example/1) First'' @ newline @ ''- [(2)](http://b.example/2) Second''"
    unfolding refs scenarioRun_ledger by code_simp
  have paths: "slashJoin ''reports'' (slug ''solar panel recycling'' @ ''.md'') =
      ''reports/solar_panel_recycling.md''"
    "slashJoin ''reports'' (slug ''solar panel recycling'' @ ''.html'') =
      ''reports/solar_panel_recycling.html''"
    by code_simp+
  have hd: "(\<forall>u\<in>set (usedReferences ?F). references ?F u \<noteq> None) \<and> \<not> neverFails ''reports'' \<and>
      \<not> neverFails (slashJoin ''reports'' (slug ''solar panel recycling'' @ ''.md'')) \<and>
      \<not> neverFails (slashJoin ''reports'' (slug ''solar panel recycling'' @ ''.html''))"
    using known by (simp add: neverFails_def)
  have w3: "generateDocument slashJoin neverFails ''2026-01-01'' ''solar panel recycling'' ''abstract''
       ?ccs ''conclusions'' ?F =
     Inr \<lparr>doc_content =
            join newline
              (contentParts ''2026-01-01'' ''solar panel recycling'' ''abstract'' ?ccs ''conclusions'') @
            newline @
            ''- [(1)](http://a.example/1) First'' @ newline @ ''- [(2)](http://b.example/2) Second'',
          doc_markdown = ''reports/solar_panel_recycling.md'',
          doc_html = ''reports/solar_panel_recycling.html''\<rparr>"
    using fin [THEN conjunct2, THEN conjunct2, THEN conjunct2, THEN conjunct1, THEN mp, OF hd]
    unfolding lines paths by simp
  have he: "(\<exists>u\<in>set (usedReferences exampleLedger). references exampleLedger u = None) \<and>
      \<not> neverFails ''reports''"
    by (simp add: exampleLedger_def newResearch_def neverFails_def)
  have w4: "generateDocument slashJoin neverFails ''2026-01-01'' ''solar panel recycling'' ''abstract''
       ?ccs ''conclusions'' exampleLedger = Inl MissingReference"
    using miss [THEN conjunct2, THEN conjunct2, THEN conjunct2, THEN conjunct2, THEN conjunct1,
        THEN mp, OF he] .
  have sub: "flatReports (slashJoin ''reports'' (slug ''AC/DC'' @ ''.md''))"
    by code_simp
  have flat: "\<not> flatReports ''reports''"
    by code_simp
  have hf: "flatReports ''reports'' \<or>
      (\<forall>u\<in>set (usedReferences (newResearch Map.empty)). references (newResearch Map.empty) u \<noteq> None) \<and>
      (flatReports (slashJoin ''reports'' (slug ''AC/DC'' @ ''.md'')) \<or>
       flatReports (slashJoin ''reports'' (slug ''AC/DC'' @ ''.html'')))"
    using sub by (simp add: newResearch_def)
  have w5: "generateDocument slashJoin flatReports ''2026-01-01'' ''AC/DC'' ''abstract''
       ?ccs ''conclusions'' (newResearch Map.empty) = Inl ReportWriteError"
    using wr [THEN conjunct2, THEN conjunct2, THEN conjunct2, THEN conjunct2, THEN conjunct2,
        THEN conjunct1, THEN mp, OF hf] .
  have pre: "distinct (usedReferences ?F) \<and> 1 < length (usedReferences ?F)"
    by (simp add: scenarioRun_ledger)
  have w6: "citeOrGetIndex [''http://a.example/1'', ''http://b.example/2''] ''http://b.example/2'' =
     ([''http://a.example/1'', ''http://b.example/2''], 2)"
    using fin [THEN conjunct2, THEN conjunct2, THEN conjunct2, THEN conjunct2, THEN conjunct2,
        THEN conjunct2, THEN conjunct1, THEN mp, OF pre]
    by (simp add: scenarioRun_ledger)
  have ne: "item_url scenarioDoc1 \<noteq> item_url scenarioDoc2"
    by (simp add: scenarioDoc1_def scenarioDoc2_def)
  have w7: "processParagraphs [scenarioDoc1, scenarioDoc2]
       [\<lparr>para_text = ''Two.'', para_references = [1, 2]\<rparr>] [''http://a.example/1''] =
     Inr ([''Two. [(1)](http://a.example/1)[(2)](http://b.example/2)''],
          [''http://a.example/1'', ''http://b.example/2''])"
    using fin [THEN conjunct2, THEN conjunct2, THEN conjunct2, THEN conjunct2, THEN conjunct2,
        THEN conjunct2, THEN conjunct2, THEN mp, OF ne, THEN conjunct2, THEN conjunct1]
    by (simp add: scenarioDoc1_def scenarioDoc2_def)
  have k1: "references ?F ''http://a.example/1'' \<noteq> None"
    and k2: "references ?F ''http://b.example/2'' \<noteq> None"
    using known by (simp_all add: scenarioRun_ledger)
  show ?thesis
    using w1 k1 k2 w2 w3 w4 w5 w6 w7 scenarioRun_ledger by blast
qed

text \<open>
  The claim fails in two runs. When the record of a URL exists and the batch asks for
  the URL in capitals, the document is remembered under the requested spelling while the
  chapter cites the URL stored in the record: the ledger holds a URL without an entry,
  so without a stored title, and the assembly throws without a bibliography. And for the
  subject \<^verbatim>\<open>AC/DC\<close> the file name holds a slash, and the write into a directory that
  does not exist throws.
\<close>

theorem bibliography_not_assembled_counterexample:
  "fst (projr capitalsCrawl) = [scenarioDoc1] \<and>
   usedReferences (snd (snd (projr capitalsRun))) = [''http://a.example/1''] \<and>
   references (snd (snd (projr capitalsRun))) ''http://a.example/1'' = None \<and>
   capitalsDocument = Inl MissingReference \<and>
   slashJoin ''reports'' (slug ''AC/DC'' @ ''.md'') = ''reports/ac/dc.md'' \<and>
   generateDocument slashJoin flatReports ''2026-01-01'' ''AC/DC'' ''abstract'' [] ''conclusions''
     (newResearch Map.empty) = Inl ReportWriteError"
proof -
  have a: "fst (projr capitalsCrawl) = [scenarioDoc1]"
    by code_simp
  have b: "usedReferences (snd (snd (projr capitalsRun))) = [''http://a.example/1'']"
    by code_simp
  have c: "capitalsDocument = Inl MissingReference"
    by code_simp
  have r: "references (snd (snd (projr capitalsRun))) ''http://a.example/1'' = None"
    by code_simp
  have d: "slashJoin ''reports'' (slug ''AC/DC'' @ ''.md'') = ''reports/ac/dc.md''"
    by code_simp
  have e: "generateDocument slashJoin flatReports ''2026-01-01'' ''AC/DC'' ''abstract'' []
      ''conclusions'' (newResearch Map.empty) = Inl ReportWriteError"
    by code_simp
  show ?thesis
    using a b r c d e by blast
qed

section \<open>Cache failures in the crawl stage\<close>

lemma lookupLoop_unreadable:
  "\<exists>u\<in>set urls. disk st (cachePath md5 u) = Some Unreadable \<Longrightarrow>
   lookupLoop md5 urls (st, unc) = Inl CacheReadError"
proof (induction urls arbitrary: st unc)
  case Nil
  then show ?case by simp
next
  case (Cons url urls)
  show ?case
  proof (cases "disk st (cachePath md5 url)")
    case None
    then have "\<exists>u\<in>set urls. disk st (cachePath md5 u) = Some Unreadable"
      using Cons.prems by auto
    from Cons.IH [OF this] show ?thesis
      using None by (simp add: lookupUrl_def)
  next
    case (Some f)
    show ?thesis
    proof (cases f)
      case (Json cached)
      have d: "disk (remember url cached st) = disk st"
        by (simp add: remember_def)
      have "\<exists>u\<in>set urls. disk (remember url cached st) (cachePath md5 u) = Some Unreadable"
        using Cons.prems Some Json d by auto
      from Cons.IH [OF this] show ?thesis
        using Some Json by (simp add: lookupUrl_def)
    next
      case Unreadable
      then show ?thesis
        using Some by (simp add: lookupUrl_def)
    qed
  qed
qed

lemma lookupLoop_readable:
  "\<forall>u\<in>set urls. disk st (cachePath md5 u) \<noteq> Some Unreadable \<Longrightarrow>
   \<exists>st'. lookupLoop md5 urls (st, unc) =
     Inr (st', unc @ filter (\<lambda>u. disk st (cachePath md5 u) = None) urls) \<and> disk st' = disk st"
proof (induction urls arbitrary: st unc)
  case Nil
  then show ?case by simp
next
  case (Cons url urls)
  show ?case
  proof (cases "disk st (cachePath md5 url)")
    case None
    have "\<forall>u\<in>set urls. disk st (cachePath md5 u) \<noteq> Some Unreadable"
      using Cons.prems by simp
    from Cons.IH [OF this, of "unc @ [url]"] show ?thesis
      using None by (simp add: lookupUrl_def)
  next
    case (Some f)
    then obtain cached where f: "f = Json cached"
      using Cons.prems by (cases f) auto
    have d: "disk (remember url cached st) = disk st"
      by (simp add: remember_def)
    have "\<forall>u\<in>set urls. disk (remember url cached st) (cachePath md5 u) \<noteq> Some Unreadable"
      using Cons.prems d by simp
    from Cons.IH [OF this, of unc] show ?thesis
      using Some f d by (simp add: lookupUrl_def)
  qed
qed

lemma storeLoop_refused:
  "\<exists>it\<in>set items. wfail (cachePath md5 (item_url it)) \<Longrightarrow>
   storeLoop md5 wfail items st = Inl CacheWriteError"
proof (induction items arbitrary: st)
  case Nil
  then show ?case by simp
next
  case (Cons it items)
  show ?case
  proof (cases "wfail (cachePath md5 (item_url it))")
    case True
    then show ?thesis by (simp add: storeItem_def)
  next
    case False
    then have "\<exists>it\<in>set items. wfail (cachePath md5 (item_url it))"
      using Cons.prems by auto
    from Cons.IH [OF this] show ?thesis
      using False by (simp add: storeItem_def Let_def)
  qed
qed

lemma storeLoop_written:
  "\<forall>it\<in>set items. \<not> wfail (cachePath md5 (item_url it)) \<Longrightarrow>
   \<not> isl (storeLoop md5 wfail items st)"
proof (induction items arbitrary: st)
  case Nil
  then show ?case by simp
next
  case (Cons it items)
  then show ?case by (simp add: storeItem_def Let_def)
qed

text \<open>
  C5, as amended. A URL of the batch that has no record is a cache miss: it is among the
  URLs handed to the crawler. A record that exists but cannot be read is not a miss: the
  read error leaves \<open>crawlUrls\<close>, whatever the rest of the batch, the crawler and the
  writes do. When all records are readable and the crawler answers, a write that fails
  for one of its items leaves \<open>crawlUrls\<close> as a write error. \<open>crawlUrls\<close> returns when
  no record of the batch is unreadable, the crawler answers and no write fails.
\<close>

theorem cache_errors_propagate:
  "((\<exists>u\<in>set urls. disk st (cachePath md5 u) = Some Unreadable) \<longrightarrow>
      crawlUrls md5 crawler wfail urls st = Inl CacheReadError) \<and>
   ((\<forall>u\<in>set urls. disk st (cachePath md5 u) \<noteq> Some Unreadable) \<longrightarrow>
      (\<exists>st'. lookupLoop md5 urls (st, []) =
         Inr (st', filter (\<lambda>u. disk st (cachePath md5 u) = None) urls))) \<and>
   ((\<forall>u\<in>set urls. disk st (cachePath md5 u) \<noteq> Some Unreadable) \<and>
    filter (\<lambda>u. disk st (cachePath md5 u) = None) urls \<noteq> [] \<and>
    crawler (filter (\<lambda>u. disk st (cachePath md5 u) = None) urls) = Some items \<and>
    (\<exists>it\<in>set items. wfail (cachePath md5 (item_url it))) \<longrightarrow>
      crawlUrls md5 crawler wfail urls st = Inl CacheWriteError) \<and>
   ((\<forall>u\<in>set urls. disk st (cachePath md5 u) \<noteq> Some Unreadable) \<and>
    crawler (filter (\<lambda>u. disk st (cachePath md5 u) = None) urls) = Some items \<and>
    (\<forall>it\<in>set items. \<not> wfail (cachePath md5 (item_url it))) \<longrightarrow>
      \<not> isl (crawlUrls md5 crawler wfail urls st))"
proof -
  let ?misses = "filter (\<lambda>u. disk st (cachePath md5 u) = None) urls"
  have unreadable: "crawlUrls md5 crawler wfail urls st = Inl CacheReadError"
    if "\<exists>u\<in>set urls. disk st (cachePath md5 u) = Some Unreadable"
    using lookupLoop_unreadable [OF that, of "[]"] by (simp add: crawlUrls_def)
  have misses: "\<exists>st'. lookupLoop md5 urls (st, []) = Inr (st', ?misses)"
    if "\<forall>u\<in>set urls. disk st (cachePath md5 u) \<noteq> Some Unreadable"
    using lookupLoop_readable [OF that, of "[]"] by auto
  have refused: "crawlUrls md5 crawler wfail urls st = Inl CacheWriteError"
    if "(\<forall>u\<in>set urls. disk st (cachePath md5 u) \<noteq> Some Unreadable) \<and> ?misses \<noteq> [] \<and>
      crawler ?misses = Some items \<and> (\<exists>it\<in>set items. wfail (cachePath md5 (item_url it)))"
  proof -
    from that misses obtain st' where "lookupLoop md5 urls (st, []) = Inr (st', ?misses)"
      by blast
    then show ?thesis
      using that storeLoop_refused [of items wfail md5 st']
      by (simp add: crawlUrls_def)
  qed
  have returns: "\<not> isl (crawlUrls md5 crawler wfail urls st)"
    if "(\<forall>u\<in>set urls. disk st (cachePath md5 u) \<noteq> Some Unreadable) \<and>
      crawler ?misses = Some items \<and> (\<forall>it\<in>set items. \<not> wfail (cachePath md5 (item_url it)))"
  proof -
    from that misses obtain st' where l: "lookupLoop md5 urls (st, []) = Inr (st', ?misses)"
      by blast
    have "\<not> isl (storeLoop md5 wfail items st')"
      using that by (intro storeLoop_written) simp
    then obtain st2 where "storeLoop md5 wfail items st' = Inr st2"
      by (cases "storeLoop md5 wfail items st'") auto
    then show ?thesis
      using that l by (simp add: crawlUrls_def)
  qed
  show ?thesis
    using unreadable misses refused returns by blast
qed

theorem cache_errors_propagate_witness:
  "crawlUrls plainDigest echoCrawler neverFails [''http://a.example/1''] (newResearch corruptDisk) =
     Inl CacheReadError \<and>
   (\<exists>st'. lookupLoop plainDigest [''http://a.example/1''] (newResearch Map.empty, []) =
      Inr (st', [''http://a.example/1''])) \<and>
   crawlUrls plainDigest echoCrawler alwaysFails [''http://a.example/1''] (newResearch Map.empty) =
     Inl CacheWriteError \<and>
   \<not> isl (crawlUrls plainDigest echoCrawler neverFails [''http://a.example/1''] (newResearch Map.empty))"
proof -
  let ?u = "''http://a.example/1''"
  let ?items = "[doc ?u ''crawled'']"
  note bad = cache_errors_propagate [where urls = "[?u]" and st = "newResearch corruptDisk"
      and ?md5.0 = plainDigest and crawler = echoCrawler and wfail = neverFails and items = ?items]
  note full = cache_errors_propagate [where urls = "[?u]" and st = "newResearch Map.empty"
      and ?md5.0 = plainDigest and crawler = echoCrawler and wfail = alwaysFails and items = ?items]
  note good = cache_errors_propagate [where urls = "[?u]" and st = "newResearch Map.empty"
      and ?md5.0 = plainDigest and crawler = echoCrawler and wfail = neverFails and items = ?items]
  have h1: "\<exists>u\<in>set [?u]. disk (newResearch corruptDisk) (cachePath plainDigest u) = Some Unreadable"
    by (simp add: newResearch_def corruptDisk_def)
  have w1: "crawlUrls plainDigest echoCrawler neverFails [?u] (newResearch corruptDisk) =
      Inl CacheReadError"
    using bad [THEN conjunct1, THEN mp, OF h1] .
  have misses: "filter (\<lambda>u. disk (newResearch Map.empty) (cachePath plainDigest u) = None) [?u] = [?u]"
    by (simp add: newResearch_def)
  have h2: "\<forall>u\<in>set [?u]. disk (newResearch Map.empty) (cachePath plainDigest u) \<noteq> Some Unreadable"
    by (simp add: newResearch_def)
  have w2: "\<exists>st'. lookupLoop plainDigest [?u] (newResearch Map.empty, []) = Inr (st', [?u])"
    using full [THEN conjunct2, THEN conjunct1, THEN mp, OF h2] misses by simp
  have h3: "(\<forall>u\<in>set [?u]. disk (newResearch Map.empty) (cachePath plainDigest u) \<noteq> Some Unreadable) \<and>
      filter (\<lambda>u. disk (newResearch Map.empty) (cachePath plainDigest u) = None) [?u] \<noteq> [] \<and>
      echoCrawler (filter (\<lambda>u. disk (newResearch Map.empty) (cachePath plainDigest u) = None) [?u]) =
        Some ?items \<and>
      (\<exists>it\<in>set ?items. alwaysFails (cachePath plainDigest (item_url it)))"
    by (simp add: newResearch_def echoCrawler_def alwaysFails_def)
  have w3: "crawlUrls plainDigest echoCrawler alwaysFails [?u] (newResearch Map.empty) =
      Inl CacheWriteError"
    using full [THEN conjunct2, THEN conjunct2, THEN conjunct1, THEN mp, OF h3] .
  have h4: "(\<forall>u\<in>set [?u]. disk (newResearch Map.empty) (cachePath plainDigest u) \<noteq> Some Unreadable) \<and>
      echoCrawler (filter (\<lambda>u. disk (newResearch Map.empty) (cachePath plainDigest u) = None) [?u]) =
        Some ?items \<and>
      (\<forall>it\<in>set ?items. \<not> neverFails (cachePath plainDigest (item_url it)))"
    by (simp add: newResearch_def echoCrawler_def neverFails_def)
  have w4: "\<not> isl (crawlUrls plainDigest echoCrawler neverFails [?u] (newResearch Map.empty))"
    using good [THEN conjunct2, THEN conjunct2, THEN conjunct2, THEN mp, OF h4] .
  show ?thesis
    using w1 w2 w3 w4 by blast
qed

text \<open>
  The claim as stated fails: with an unreadable record for the only URL of the batch the
  read error is the result of \<open>crawlUrls\<close>, and with a directory that refuses writes the
  write error is.
\<close>

theorem cache_failure_recovered_counterexample:
  "disk (newResearch corruptDisk) (cachePath plainDigest ''http://a.example/1'') = Some Unreadable \<and>
   crawlUrls plainDigest echoCrawler neverFails [''http://a.example/1''] (newResearch corruptDisk) =
     Inl CacheReadError \<and>
   crawlUrls plainDigest echoCrawler alwaysFails [''http://a.example/1''] (newResearch Map.empty) =
     Inl CacheWriteError"
  by (simp add: crawlUrls_def lookupUrl_def storeItem_def newResearch_def corruptDisk_def
      echoCrawler_def alwaysFails_def Let_def)

section \<open>The content cache\<close>

lemma map_of_objSet: "map_of (objSet kvs k v) k = Some v"
  by (induction kvs) auto

lemma lookupUrl_disk: "lookupUrl md5 url (st, unc) = Inr (st', unc') \<Longrightarrow> disk st' = disk st"
  by (auto simp: lookupUrl_def remember_def split: option.splits cacheFile.splits)

lemma lookupLoop_disk: "lookupLoop md5 urls (st, unc) = Inr (st', unc') \<Longrightarrow> disk st' = disk st"
proof (induction urls arbitrary: st unc)
  case Nil
  then show ?case by simp
next
  case (Cons url urls)
  from Cons.prems obtain st1 unc1 where
    s: "lookupUrl md5 url (st, unc) = Inr (st1, unc1)"
    and l: "lookupLoop md5 urls (st1, unc1) = Inr (st', unc')"
    by (auto split: sum.splits)
  show ?case
    using lookupUrl_disk [OF s] Cons.IH [OF l] by simp
qed

text \<open>
  C6. The record of a URL is named by the digest of the lower-cased, trimmed URL, so two
  URLs with the same normal form have the same record. Storing an item (when the write
  does not fail) and then looking its URL up reads that item back and remembers it under
  the URL. Storing a second item whose URL has the same normal form rewrites the same
  record: the directory has the same file names as after the first store, the record
  holds the second item, and no other file differs from before. Looking URLs up leaves
  the directory as it was.
\<close>

theorem cache_round_trip:
  "cachePath md5 u = ''cache/url_'' @ md5 (trim (toLowerCase u)) @ ''.json'' \<and>
   (trim (toLowerCase u1) = trim (toLowerCase u2) \<longrightarrow> cachePath md5 u1 = cachePath md5 u2) \<and>
   (\<not> wfail (cachePath md5 (item_url it)) \<longrightarrow>
      (\<exists>st'. storeItem md5 wfail it st = Inr st' \<and>
         disk st' (cachePath md5 (item_url it)) = Some (Json it) \<and>
         lookupUrl md5 (item_url it) (st', unc) = Inr (remember (item_url it) it st', unc) \<and>
         map_of (cache (remember (item_url it) it st')) (item_url it) = Some it)) \<and>
   (trim (toLowerCase (item_url it)) = trim (toLowerCase (item_url it2)) \<and>
    \<not> wfail (cachePath md5 (item_url it)) \<longrightarrow>
      (\<exists>st1 st2. storeItem md5 wfail it st = Inr st1 \<and> storeItem md5 wfail it2 st1 = Inr st2 \<and>
         dom (disk st2) = dom (disk st1) \<and>
         disk st2 (cachePath md5 (item_url it)) = Some (Json it2) \<and>
         (\<forall>p. p \<noteq> cachePath md5 (item_url it) \<longrightarrow> disk st2 p = disk st p) \<and>
         lookupUrl md5 (item_url it) (st2, unc) = Inr (remember (item_url it) it2 st2, unc))) \<and>
   (lookupUrl md5 u (st, unc) = Inr (st3, unc3) \<longrightarrow> disk st3 = disk st) \<and>
   (lookupLoop md5 urls (st, unc) = Inr (st4, unc4) \<longrightarrow> disk st4 = disk st)"
proof -
  have key: "cachePath md5 u = ''cache/url_'' @ md5 (trim (toLowerCase u)) @ ''.json''"
    by (simp add: cachePath_def)
  have same: "cachePath md5 u1 = cachePath md5 u2"
    if "trim (toLowerCase u1) = trim (toLowerCase u2)"
    using that by (simp add: cachePath_def)
  have trip: "\<exists>st'. storeItem md5 wfail it st = Inr st' \<and>
         disk st' (cachePath md5 (item_url it)) = Some (Json it) \<and>
         lookupUrl md5 (item_url it) (st', unc) = Inr (remember (item_url it) it st', unc) \<and>
         map_of (cache (remember (item_url it) it st')) (item_url it) = Some it"
    if "\<not> wfail (cachePath md5 (item_url it))"
    using that
    by (simp add: storeItem_def lookupUrl_def remember_def map_of_objSet Let_def)
  have twice: "\<exists>st1 st2. storeItem md5 wfail it st = Inr st1 \<and> storeItem md5 wfail it2 st1 = Inr st2 \<and>
         dom (disk st2) = dom (disk st1) \<and>
         disk st2 (cachePath md5 (item_url it)) = Some (Json it2) \<and>
         (\<forall>p. p \<noteq> cachePath md5 (item_url it) \<longrightarrow> disk st2 p = disk st p) \<and>
         lookupUrl md5 (item_url it) (st2, unc) = Inr (remember (item_url it) it2 st2, unc)"
    if "trim (toLowerCase (item_url it)) = trim (toLowerCase (item_url it2)) \<and>
      \<not> wfail (cachePath md5 (item_url it))"
  proof -
    have p: "cachePath md5 (item_url it2) = cachePath md5 (item_url it)"
      using that by (simp add: cachePath_def)
    show ?thesis
      using that p
      by (simp add: storeItem_def lookupUrl_def remember_def Let_def)
  qed
  have quiet: "disk st3 = disk st" if "lookupUrl md5 u (st, unc) = Inr (st3, unc3)"
    using that by (rule lookupUrl_disk)
  have quiet': "disk st4 = disk st" if "lookupLoop md5 urls (st, unc) = Inr (st4, unc4)"
    using that by (rule lookupLoop_disk)
  show ?thesis
    using key same trip twice quiet quiet' by blast
qed

theorem cache_round_trip_witness:
  "trim (toLowerCase ''http://a.example/1'') = trim (toLowerCase '' HTTP://A.example/1 '') \<and>
   cachePath plainDigest ''http://a.example/1'' = cachePath plainDigest '' HTTP://A.example/1 '' \<and>
   cachePath plainDigest '' HTTP://A.example/1 '' = ''cache/url_http://a.example/1.json'' \<and>
   disk (projr (storeItem plainDigest neverFails scenarioDoc1 (newResearch Map.empty)))
     ''cache/url_http://a.example/1.json'' = Some (Json scenarioDoc1) \<and>
   lookupUrl plainDigest ''http://a.example/1''
     (projr (storeItem plainDigest neverFails scenarioDoc1 (newResearch Map.empty)), []) =
     Inr (remember ''http://a.example/1'' scenarioDoc1
            (projr (storeItem plainDigest neverFails scenarioDoc1 (newResearch Map.empty))), []) \<and>
   disk (projr (storeItem plainDigest neverFails (scenarioDoc1\<lparr>item_text := ''gamma''\<rparr>)
       (projr (storeItem plainDigest neverFails scenarioDoc1 (newResearch Map.empty)))))
     ''cache/url_http://a.example/1.json'' = Some (Json (scenarioDoc1\<lparr>item_text := ''gamma''\<rparr>)) \<and>
   dom (disk (projr (storeItem plainDigest neverFails (scenarioDoc1\<lparr>item_text := ''gamma''\<rparr>)
       (projr (storeItem plainDigest neverFails scenarioDoc1 (newResearch Map.empty)))))) =
     {''cache/url_http://a.example/1.json''}"
proof -
  let ?u = "''http://a.example/1''"
  let ?v = "'' HTTP://A.example/1 ''"
  let ?d2 = "scenarioDoc1\<lparr>item_text := ''gamma''\<rparr>"
  let ?s0 = "newResearch Map.empty"
  note t = cache_round_trip [where ?md5.0 = plainDigest and u = ?v and ?u1.0 = ?u and ?u2.0 = ?v
      and wfail = neverFails and it = scenarioDoc1 and ?it2.0 = ?d2 and st = ?s0 and unc = "[]"
      and urls = "[?u]" and ?st3.0 = ?s0 and ?unc3.0 = "[?v]" and ?st4.0 = ?s0 and ?unc4.0 = "[?u]"]
  have url: "item_url scenarioDoc1 = ?u" "item_url ?d2 = ?u"
    by (simp_all add: scenarioDoc1_def)
  have n: "trim (toLowerCase ?u) = trim (toLowerCase ?v)"
    by code_simp
  have w: "\<not> neverFails (cachePath plainDigest (item_url scenarioDoc1))"
    by (simp add: neverFails_def)
  have p: "cachePath plainDigest ?v = ''cache/url_http://a.example/1.json''"
    using t [THEN conjunct1] by code_simp
  have p': "cachePath plainDigest ?u = cachePath plainDigest ?v"
    using t [THEN conjunct2, THEN conjunct1, rule_format, OF n] .
  have pu: "cachePath plainDigest ?u = ''cache/url_http://a.example/1.json''"
    using p p' by simp
  from t [THEN conjunct2, THEN conjunct2, THEN conjunct1, rule_format, OF w]
  obtain st' where one:
    "storeItem plainDigest neverFails scenarioDoc1 ?s0 = Inr st'"
    "disk st' (cachePath plainDigest ?u) = Some (Json scenarioDoc1)"
    "lookupUrl plainDigest ?u (st', []) = Inr (remember ?u scenarioDoc1 st', [])"
    unfolding url by blast
  have n2: "trim (toLowerCase (item_url scenarioDoc1)) = trim (toLowerCase (item_url ?d2)) \<and>
      \<not> neverFails (cachePath plainDigest (item_url scenarioDoc1))"
    using w by (simp add: url)
  from t [THEN conjunct2, THEN conjunct2, THEN conjunct2, THEN conjunct1, rule_format, OF n2]
  obtain st1 st2 where two:
    "storeItem plainDigest neverFails scenarioDoc1 ?s0 = Inr st1"
    "storeItem plainDigest neverFails ?d2 st1 = Inr st2"
    "dom (disk st2) = dom (disk st1)"
    "disk st2 (cachePath plainDigest ?u) = Some (Json ?d2)"
    unfolding url by blast
  have st1: "st1 = st'" using one(1) two(1) by simp
  have d1: "dom (disk st') = {''cache/url_http://a.example/1.json''}"
    using one(1) pu
    by (auto simp: storeItem_def url Let_def neverFails_def remember_def newResearch_def
        split: if_splits)
  show ?thesis
    using n p p' pu one two d1 st1 by simp
qed

section \<open>Assembling the document twice\<close>

lemma generateDocument_Inr:
  assumes "generateDocument pathJoin wfail today subject abstract chapters conclusions st = Inr d"
  obtains refsText where "orderedReferences st = Inr refsText"
    "doc_content d =
       join newline (contentParts today subject abstract chapters conclusions @ [refsText])"
  using assms
  by (auto simp: generateDocument_def Let_def split: if_splits sum.splits)

text \<open>The canonical text is the date between two texts that do not depend on it.\<close>

lemma content_around_date:
  "join newline (contentParts today subject abstract chapters conclusions @ [refsText]) =
   (''# '' @ subject @ newline @ newline @ ''*Generated on '') @ today @
   ('' by [apify-deep-research](https://github.com/mluggy/apify-deep-research) (not for commercial use)*'' @
    newline @ newline @
    join newline
      (toc chapters # newline # (''*'' @ abstract @ ''*'') #
       map chapterSection chapters @
       [newline @ ''---'' @ newline, ''*'' @ conclusions @ ''*'', newline @ ''---'' @ newline,
        refsText]))"
  by (simp add: contentParts_def dateLine_def)

text \<open>
  C8, as amended. The canonical text holds the date of the clock at the moment of
  assembly: it is a text that does not depend on the date, the date, and another text
  that does not depend on it. So two assemblies from the same state (same subject,
  abstract, chapters, conclusions, ledger and references) that both return give the same
  canonical text exactly when they read the same date, whatever the file system does;
  and on the same date, with the same \<^verbatim>\<open>path.join\<close>, the two results are equal.
\<close>

theorem generateDocument_same_date:
  "(generateDocument pathJoin wfail today subject abstract chapters conclusions st = Inr d \<and>
    generateDocument pathJoin' wfail' today' subject abstract chapters conclusions st = Inr d' \<longrightarrow>
      (doc_content d = doc_content d' \<longleftrightarrow> today = today') \<and>
      (today = today' \<and> pathJoin = pathJoin' \<longrightarrow> d = d')) \<and>
   (\<exists>before rest. \<forall>pathJoin wfail today d.
      generateDocument pathJoin wfail today subject abstract chapters conclusions st = Inr d \<longrightarrow>
        doc_content d = before @ today @ rest)"
proof -
  have two: "(doc_content d = doc_content d' \<longleftrightarrow> today = today') \<and>
      (today = today' \<and> pathJoin = pathJoin' \<longrightarrow> d = d')"
    if a: "generateDocument pathJoin wfail today subject abstract chapters conclusions st = Inr d \<and>
      generateDocument pathJoin' wfail' today' subject abstract chapters conclusions st = Inr d'"
  proof -
    from a obtain r where r: "orderedReferences st = Inr r"
      and c: "doc_content d = join newline (contentParts today subject abstract chapters conclusions @ [r])"
      by (auto elim: generateDocument_Inr)
    from a obtain r' where r': "orderedReferences st = Inr r'"
      and c': "doc_content d' = join newline (contentParts today' subject abstract chapters conclusions @ [r'])"
      by (auto elim: generateDocument_Inr)
    have same: "r' = r"
      using r r' by simp
    have "doc_content d = doc_content d' \<longleftrightarrow> today = today'"
      unfolding c c' same content_around_date by simp
    moreover have "d = d'" if "today = today' \<and> pathJoin = pathJoin'"
      using a that by (auto simp: generateDocument_def Let_def split: if_splits sum.splits)
    ultimately show ?thesis
      by blast
  qed
  have shape: "\<exists>before rest. \<forall>pathJoin wfail today d.
      generateDocument pathJoin wfail today subject abstract chapters conclusions st = Inr d \<longrightarrow>
        doc_content d = before @ today @ rest"
  proof (cases "orderedReferences st")
    case (Inl e)
    then show ?thesis
      by (auto simp: generateDocument_def)
  next
    case (Inr r)
    let ?before = "''# '' @ subject @ newline @ newline @ ''*Generated on ''"
    let ?rest = "'' by [apify-deep-research](https://github.com/mluggy/apify-deep-research) (not for commercial use)*'' @
      newline @ newline @
      join newline
        (toc chapters # newline # (''*'' @ abstract @ ''*'') #
         map chapterSection chapters @
         [newline @ ''---'' @ newline, ''*'' @ conclusions @ ''*'', newline @ ''---'' @ newline, r])"
    have "doc_content d = ?before @ today @ ?rest"
      if "generateDocument pathJoin wfail today subject abstract chapters conclusions st = Inr d"
      for pathJoin wfail today d
      using that Inr content_around_date [of today subject abstract chapters conclusions r]
      by (auto elim!: generateDocument_Inr)
    then show ?thesis
      by blast
  qed
  show ?thesis
    using two shape by blast
qed

lemma assembledOn_returns:
  "assembledOn ''2026-01-01'' = Inr (projr (assembledOn ''2026-01-01''))"
  "assembledOn ''2026-01-02'' = Inr (projr (assembledOn ''2026-01-02''))"
  by (simp_all add: assembledOn_def generateDocument_def orderedReferences_def newResearch_def
      neverFails_def Let_def)

theorem generateDocument_same_date_witness:
  "assembledOn ''2026-01-01'' = Inr (projr (assembledOn ''2026-01-01'')) \<and>
   doc_content (projr (assembledOn ''2026-01-01'')) \<noteq> doc_content (projr (assembledOn ''2026-01-02'')) \<and>
   (\<exists>before rest.
      doc_content (projr (assembledOn ''2026-01-01'')) = before @ ''2026-01-01'' @ rest \<and>
      doc_content (projr (assembledOn ''2026-01-02'')) = before @ ''2026-01-02'' @ rest)"
proof -
  let ?a = "projr (assembledOn ''2026-01-01'')"
  let ?b = "projr (assembledOn ''2026-01-02'')"
  note t = generateDocument_same_date [where pathJoin = slashJoin and pathJoin' = slashJoin
      and wfail = neverFails and wfail' = neverFails and today = "''2026-01-01''"
      and today' = "''2026-01-02''" and subject = "''solar''" and abstract = "''abstract''"
      and chapters = "[]" and conclusions = "''conclusions''" and st = "newResearch Map.empty"
      and d = ?a and d' = ?b]
  have h: "generateDocument slashJoin neverFails ''2026-01-01'' ''solar'' ''abstract'' []
        ''conclusions'' (newResearch Map.empty) = Inr ?a \<and>
      generateDocument slashJoin neverFails ''2026-01-02'' ''solar'' ''abstract'' []
        ''conclusions'' (newResearch Map.empty) = Inr ?b"
    using assembledOn_returns by (simp add: assembledOn_def)
  have "doc_content ?a = doc_content ?b \<longleftrightarrow> ''2026-01-01'' = ''2026-01-02''"
    using t [THEN conjunct1, THEN mp, OF h] by blast
  then have w1: "doc_content ?a \<noteq> doc_content ?b"
    by simp
  from t [THEN conjunct2] obtain before rest where s:
    "\<forall>pathJoin wfail today d.
      generateDocument pathJoin wfail today ''solar'' ''abstract'' [] ''conclusions''
        (newResearch Map.empty) = Inr d \<longrightarrow>
      doc_content d = before @ today @ rest"
    by blast
  have "doc_content ?a = before @ ''2026-01-01'' @ rest"
    using s h by blast
  moreover have "doc_content ?b = before @ ''2026-01-02'' @ rest"
    using s h by blast
  ultimately show ?thesis
    using w1 assembledOn_returns(1) by blast
qed

text \<open>
  The claim as stated fails: the same state assembled on two days gives two canonical
  texts.
\<close>

theorem generateDocument_next_day_counterexample:
  "\<not> isl (assembledOn ''2026-01-01'') \<and> \<not> isl (assembledOn ''2026-01-02'') \<and>
   doc_content (projr (assembledOn ''2026-01-01'')) \<noteq> doc_content (projr (assembledOn ''2026-01-02''))"
proof -
  have a: "\<not> isl (assembledOn ''2026-01-01'')"
    by code_simp
  have b: "\<not> isl (assembledOn ''2026-01-02'')"
    by code_simp
  have c: "doc_content (projr (assembledOn ''2026-01-01'')) \<noteq>
      doc_content (projr (assembledOn ''2026-01-02''))"
    by code_simp
  show ?thesis
    using a b c by blast
qed

section \<open>The file base name\<close>

text \<open>
  C9. The base name is \<open>slug subject\<close>: the subject in lower case, every run of white
  space replaced by one underscore, then one underscore removed at the start and one at
  the end. It is a function of the subject alone. For a subject that starts with two
  underscores, or with white space followed by an underscore, and for one that ends so,
  the base name keeps an underscore at that end.
\<close>

theorem slug_keeps_separator:
  "slug ''__init__'' = ''_init_'' \<and>
   slug ''__a'' = ''_a'' \<and> hd (slug ''__a'') = CHR ''_'' \<and>
   slug '' _Solar Panels'' = ''_solar_panels'' \<and>
   slug ''a__'' = ''a_'' \<and> last (slug ''a__'') = CHR ''_'' \<and>
   slug ''  Solar   Panels '' = ''solar_panels''"
proof -
  have a: "slug ''__a'' = ''_a''"
    by code_simp
  have b: "hd (slug ''__a'') = CHR ''_''"
    unfolding a by simp
  have c: "slug '' _Solar Panels'' = ''_solar_panels''"
    by code_simp
  have d: "slug ''a__'' = ''a_''"
    by code_simp
  have e: "last (slug ''a__'') = CHR ''_''"
    unfolding d by simp
  have f: "slug ''  Solar   Panels '' = ''solar_panels''"
    by code_simp
  have g: "slug ''__init__'' = ''_init_''"
    by code_simp
  show ?thesis
    using a b c d e f g by blast
qed

section \<open>URLs that differ in case or surrounding white space\<close>




end
